theory Spec2Isabelle
  imports Main "HOL-Library.Sublist" "HOL-Library.Word"
begin

section \<open>Data model\<close>

text \<open>
  The chat interface of the frontend (the second component of
  \<^verbatim>\<open>src/frontend/components/action-buttons.tsx\<close>) keeps its messages in
  \<^verbatim>\<open>messageMap = useRef(new Map<string, Message>())\<close>. The values of that map are
  JavaScript objects, and \<^verbatim>\<open>currentUserMessage\<close> is a second reference to one of
  them, so the objects live in an explicit store: an address is a natural number, the
  store maps addresses to messages, and \<^verbatim>\<open>nxt\<close> is the next unused address.

  \<^verbatim>\<open>Message\<close> is the interface of \<^verbatim>\<open>src/frontend/types/chat.ts\<close>. The type
  \<^verbatim>\<open>MessageRole\<close> is erased at run time, where a role is whatever value the object
  holds: a string, or nothing at all (\<open>None\<close>). A JavaScript string is a \<open>string\<close>:
  the handler only concatenates strings, compares them and searches for an ASCII
  substring.
\<close>

type_synonym addr = nat

record Message =
  idM :: string
  contentM :: string
  roleM :: "string option"

text \<open>
  \<^verbatim>\<open>interface WSMessage { id?; type; delta?; text?; action?; greeting? }\<close>: every optional
  field is an \<open>option\<close>.
\<close>

record WSMessage =
  idW :: "string option"
  typeW :: string
  deltaW :: "string option"
  textW :: "string option"
  actionW :: "string option"
  greetingW :: "string option"

text \<open>
  The two values the handler takes from its environment:
  \<^verbatim>\<open>Date.now()\<close> and \<^verbatim>\<open>Math.random()\<close>, each as the string that the
  template literal or the \<^verbatim>\<open>+\<close> turns it into.
\<close>

record Env =
  date_now :: string
  math_random :: string

text \<open>
  Modelled from the spec: the class \<^verbatim>\<open>Player\<close> of \<^verbatim>\<open>@/lib/audio\<close> is not among the
  sources. Section 4.3 of the specification describes it as a FIFO of audio chunks:
  enqueueing appends to the tail and always succeeds, clearing discards everything that
  is buffered and not yet played.
\<close>

type_synonym chunk = "16 word list"

type_synonym Player = "chunk list"

definition play :: "chunk \<Rightarrow> Player \<Rightarrow> Player" where
  "play c p = p @ [c]"

definition clear :: "Player \<Rightarrow> Player" where
  "clear p = []"

record ChatInterface =
  heap :: "addr \<Rightarrow> Message"
  nxt :: addr
  messageMap :: "(string \<times> addr) list"
  currentUserMessage :: "addr option"
  chatState :: "Message list"
  audioPlayerRef :: "Player option"

section \<open>The JavaScript Map\<close>

text \<open>
  A JavaScript \<^verbatim>\<open>Map\<close> iterates in insertion order. \<^verbatim>\<open>set\<close> on a key that is
  present replaces the value where the key stands, and appends the entry otherwise;
  \<^verbatim>\<open>delete\<close> removes the entry of the key.
\<close>

primrec map_get :: "('k \<times> 'v) list \<Rightarrow> 'k \<Rightarrow> 'v option" where
  "map_get [] k = None"
| "map_get (p # ps) k = (if fst p = k then Some (snd p) else map_get ps k)"

primrec map_set :: "'k \<Rightarrow> 'v \<Rightarrow> ('k \<times> 'v) list \<Rightarrow> ('k \<times> 'v) list" where
  "map_set k v [] = [(k, v)]"
| "map_set k v (p # ps) = (if fst p = k then (k, v) # ps else p # map_set k v ps)"

primrec map_delete :: "'k \<Rightarrow> ('k \<times> 'v) list \<Rightarrow> ('k \<times> 'v) list" where
  "map_delete k [] = []"
| "map_delete k (p # ps) = (if fst p = k then ps else p # map_delete k ps)"

definition map_keys :: "('k \<times> 'v) list \<Rightarrow> 'k list" where
  "map_keys m = map fst m"

definition map_values :: "('k \<times> 'v) list \<Rightarrow> 'v list" where
  "map_values m = map snd m"

section \<open>JavaScript strings and truthiness\<close>

text \<open>\<^verbatim>\<open>if (message.id)\<close>: a string is truthy when it is present and not empty.\<close>

definition truthy :: "string option \<Rightarrow> bool" where
  "truthy v = (case v of None \<Rightarrow> False | Some s \<Rightarrow> s \<noteq> [])"

text \<open>\<^verbatim>\<open>message.delta || ''\<close>\<close>

definition or_empty :: "string option \<Rightarrow> string" where
  "or_empty v = (case v of None \<Rightarrow> [] | Some s \<Rightarrow> s)"

text \<open>\<^verbatim>\<open>s.includes(t)\<close>: \<open>t\<close> occurs in \<open>s\<close> as a contiguous substring.\<close>

primrec str_includes :: "string \<Rightarrow> string \<Rightarrow> bool" where
  "str_includes [] t = (t = [])"
| "str_includes (c # cs) t = (prefix t (c # cs) \<or> str_includes cs t)"

section \<open>The transcript assembler\<close>

text \<open>
  \<^verbatim>\<open>setMessages\<close>: the values of the map in iteration order, each message whose role
  is neither \<^verbatim>\<open>'user'\<close> nor \<^verbatim>\<open>'status'\<close> copied with the role \<^verbatim>\<open>'assistant'\<close>,
  stored as \<^verbatim>\<open>chatState.messages\<close>. Every handler that changes an object of the map
  calls \<^verbatim>\<open>setMessages\<close> before it returns, so the list holds messages by value.
\<close>

definition normalise :: "Message \<Rightarrow> Message" where
  "normalise message =
     (if roleM message \<noteq> Some ''user'' \<and> roleM message \<noteq> Some ''status''
      then message\<lparr>roleM := Some ''assistant''\<rparr>
      else message)"

definition Snapshot :: "ChatInterface \<Rightarrow> Message list" where
  "Snapshot s = map (\<lambda>a. normalise (heap s a)) (map_values (messageMap s))"

definition setMessages :: "ChatInterface \<Rightarrow> ChatInterface" where
  "setMessages s = s\<lparr>chatState := Snapshot s\<rparr>"

text \<open>An object literal allocates a new object: the store grows by one address.\<close>

definition new_object :: "Message \<Rightarrow> ChatInterface \<Rightarrow> addr \<times> ChatInterface" where
  "new_object m s = (nxt s, s\<lparr>heap := (heap s)(nxt s := m), nxt := Suc (nxt s)\<rparr>)"

text \<open>
  The identifiers the handler makes up, \<^verbatim>\<open>`status-${Date.now()}`\<close> and
  \<^verbatim>\<open>"userMessage" + Math.random()\<close>, and the three object literals of the handler.
\<close>

definition statusMessageId :: "Env \<Rightarrow> string" where
  "statusMessageId env = ''status-'' @ date_now env"

definition contrivedId :: "Env \<Rightarrow> string" where
  "contrivedId env = ''userMessage'' @ math_random env"

definition newMessage :: "string \<Rightarrow> string \<Rightarrow> Message" where
  "newMessage i d = \<lparr>idM = i, contentM = d, roleM = Some ''assistant''\<rparr>"

definition statusMessage :: "Env \<Rightarrow> Message" where
  "statusMessage env =
     \<lparr>idM = statusMessageId env,
      contentM = ''You are now connected to the real-time processing server'',
      roleM = Some ''assistant''\<rparr>"

definition userMessage :: "Env \<Rightarrow> Message" where
  "userMessage env = \<lparr>idM = contrivedId env, contentM = ''...'', roleM = Some ''user''\<rparr>"

text \<open>The keys that the \<^verbatim>\<open>forEach\<close> of the connected case collects.\<close>

definition messagesToRemove :: "ChatInterface \<Rightarrow> string list" where
  "messagesToRemove s =
     map fst (filter (\<lambda>(key, a). roleM (heap s a) = Some ''status''
                                  \<and> str_includes (contentM (heap s a)) ''Connecting'')
                     (messageMap s))"

definition transcription_case :: "WSMessage \<Rightarrow> ChatInterface \<Rightarrow> ChatInterface" where
  "transcription_case message s =
     (case currentUserMessage s of
        None \<Rightarrow> s
      | Some cur \<Rightarrow>
          if truthy (idW message)
          then setMessages
                 (s\<lparr>heap := (heap s)(cur := (heap s cur)\<lparr>contentM := or_empty (textW message)\<rparr>)\<rparr>)
          else s)"

definition text_delta_case :: "WSMessage \<Rightarrow> ChatInterface \<Rightarrow> ChatInterface" where
  "text_delta_case message s =
     (case idW message of
        None \<Rightarrow> s
      | Some i \<Rightarrow>
          if i = [] then s
          else (case map_get (messageMap s) i of
                  Some existingMessage \<Rightarrow>
                    setMessages
                      (s\<lparr>heap := (heap s)(existingMessage :=
                            (heap s existingMessage)
                              \<lparr>contentM := contentM (heap s existingMessage)
                                             @ or_empty (deltaW message)\<rparr>)\<rparr>)
                | None \<Rightarrow>
                    (let (a, s1) = new_object (newMessage i (or_empty (deltaW message))) s
                     in setMessages (s1\<lparr>messageMap := map_set i a (messageMap s1)\<rparr>))))"

definition connected_case :: "Env \<Rightarrow> ChatInterface \<Rightarrow> ChatInterface" where
  "connected_case env s =
     (let (a, s1) = new_object (statusMessage env) s;
          s2 = s1\<lparr>messageMap := map_set (statusMessageId env) a (messageMap s1)\<rparr>;
          s3 = s2\<lparr>messageMap := fold map_delete (messagesToRemove s2) (messageMap s2)\<rparr>
      in setMessages s3)"

definition speech_started_case :: "Env \<Rightarrow> ChatInterface \<Rightarrow> ChatInterface" where
  "speech_started_case env s =
     (let s0 = s\<lparr>audioPlayerRef := map_option clear (audioPlayerRef s)\<rparr>;
          (a, s1) = new_object (userMessage env) s0;
          s2 = s1\<lparr>currentUserMessage := Some a\<rparr>;
          s3 = s2\<lparr>messageMap := map_set (contrivedId env) a (messageMap s2)\<rparr>
      in setMessages s3)"

text \<open>\<^verbatim>\<open>handleWSMessage\<close>: the \<^verbatim>\<open>switch\<close> on \<^verbatim>\<open>message.type\<close>.\<close>

definition handleWSMessage :: "Env \<Rightarrow> WSMessage \<Rightarrow> ChatInterface \<Rightarrow> ChatInterface" where
  "handleWSMessage env message s =
     (if typeW message = ''transcription'' then transcription_case message s
      else if typeW message = ''text_delta'' then text_delta_case message s
      else if typeW message = ''control'' then
        (if actionW message = Some ''connected'' \<and> truthy (greetingW message)
         then connected_case env s
         else if actionW message = Some ''speech_started''
         then speech_started_case env s
         else s)
      else s)"

text \<open>The state of the component when it mounts.\<close>

definition initial :: ChatInterface where
  "initial = \<lparr>heap = (\<lambda>a. \<lparr>idM = [], contentM = [], roleM = None\<rparr>), nxt = 0,
              messageMap = [], currentUserMessage = None, chatState = [],
              audioPlayerRef = None\<rparr>"

text \<open>
  The part of \<^verbatim>\<open>handleConnect\<close> that touches the messages: the map is cleared and a
  status message \<^verbatim>\<open>"Connecting..."\<close> is stored under \<^verbatim>\<open>status-${Date.now()}\<close>.
  Opening the socket and the connection flags are not part of the transcript.
\<close>

definition handleConnect :: "Env \<Rightarrow> ChatInterface \<Rightarrow> ChatInterface" where
  "handleConnect env s =
     (let s0 = s\<lparr>messageMap := []\<rparr>;
          (a, s1) =
             new_object \<lparr>idM = statusMessageId env, contentM = ''Connecting...'',
                         roleM = Some ''status''\<rparr> s0
      in setMessages (s1\<lparr>messageMap := map_set (statusMessageId env) a (messageMap s1)\<rparr>))"

text \<open>A sequence of events handled one after the other, each with its environment.\<close>

primrec run :: "(Env \<times> WSMessage) list \<Rightarrow> ChatInterface \<Rightarrow> ChatInterface" where
  "run [] s = s"
| "run (ev # evs) s = run evs (handleWSMessage (fst ev) (snd ev) s)"

section \<open>The receive loop\<close>

text \<open>
  \<^verbatim>\<open>receiveLoop\<close> iterates over the frames of the socket. A frame is a text frame or
  a binary frame. \<^verbatim>\<open>JSON.parse\<close> is a parameter \<open>parse\<close> of the model: \<open>None\<close> when
  the \<^verbatim>\<open>try\<close> block throws on the payload, the decoded message otherwise. What the
  loop prints with \<^verbatim>\<open>console.log\<close> and \<^verbatim>\<open>console.error\<close> is returned as a list.
\<close>

datatype frame = Text string | Binary chunk

datatype log = Received WSMessage | ErrorParsing string

definition initAudioPlayer :: "ChatInterface \<Rightarrow> ChatInterface" where
  "initAudioPlayer s =
     (case audioPlayerRef s of None \<Rightarrow> s\<lparr>audioPlayerRef := Some []\<rparr> | Some p \<Rightarrow> s)"

definition receive_frame ::
  "(string \<Rightarrow> WSMessage option) \<Rightarrow> Env \<Rightarrow> frame \<Rightarrow> ChatInterface \<Rightarrow> log list \<times> ChatInterface"
where
  "receive_frame parse env message s =
     (case message of
        Text d \<Rightarrow>
          (case parse d of
             Some m \<Rightarrow> ([Received m], handleWSMessage env m s)
           | None \<Rightarrow> ([ErrorParsing d], s))
      | Binary d \<Rightarrow> ([], s\<lparr>audioPlayerRef := map_option (play d) (audioPlayerRef s)\<rparr>))"

primrec receive_frames ::
  "(string \<Rightarrow> WSMessage option) \<Rightarrow> (Env \<times> frame) list \<Rightarrow> ChatInterface
     \<Rightarrow> log list \<times> ChatInterface"
where
  "receive_frames parse [] s = ([], s)"
| "receive_frames parse (f # fs) s =
     (let (l1, s1) = receive_frame parse (fst f) (snd f) s;
          (l2, s2) = receive_frames parse fs s1
      in (l1 @ l2, s2))"

text \<open>
  \<open>webSocketClient\<close> tells whether \<^verbatim>\<open>webSocketClient.current\<close> is set when the loop
  starts; \<open>frames\<close> are the frames the socket delivers until it closes.
\<close>

definition receiveLoop ::
  "(string \<Rightarrow> WSMessage option) \<Rightarrow> bool \<Rightarrow> (Env \<times> frame) list \<Rightarrow> ChatInterface
     \<Rightarrow> log list \<times> ChatInterface"
where
  "receiveLoop parse webSocketClient frames s =
     (let s0 = initAudioPlayer s
      in if \<not> webSocketClient then ([], s0) else receive_frames parse frames s0)"

section \<open>Well-formed states and the order of first observation\<close>

text \<open>
  What every state of the component satisfies: the keys of the map are distinct, no
  object is stored under two keys, every object of the map and the current user message
  were allocated, and an object stored under a key has that key as its \<^verbatim>\<open>id\<close>.
\<close>

definition invar :: "ChatInterface \<Rightarrow> bool" where
  "invar s \<longleftrightarrow>
     distinct (map fst (messageMap s)) \<and> distinct (map snd (messageMap s))
     \<and> (\<forall>(k, a) \<in> set (messageMap s). a < nxt s \<and> idM (heap s a) = k)
     \<and> (case currentUserMessage s of None \<Rightarrow> True | Some a \<Rightarrow> a < nxt s)"

text \<open>The messages of the map as they are stored, in iteration order.\<close>

definition stored :: "ChatInterface \<Rightarrow> Message list" where
  "stored s = map (heap s) (map_values (messageMap s))"

text \<open>A pending "connecting" message: the test of the cleanup in the connected case.\<close>

definition is_connecting :: "Message \<Rightarrow> bool" where
  "is_connecting m \<longleftrightarrow> roleM m = Some ''status'' \<and> str_includes (contentM m) ''Connecting''"

text \<open>
  The identifier an event brings into the map, if any, and the order in which
  identifiers are first observed along a sequence of events.
\<close>

definition observed_id :: "Env \<times> WSMessage \<Rightarrow> string option" where
  "observed_id ev =
     (let env = fst ev; message = snd ev in
      if typeW message = ''text_delta'' \<and> truthy (idW message) then idW message
      else if typeW message = ''control'' \<and> actionW message = Some ''connected''
              \<and> truthy (greetingW message)
      then Some (statusMessageId env)
      else if typeW message = ''control'' \<and> actionW message = Some ''speech_started''
      then Some (contrivedId env)
      else None)"

definition observe :: "string option \<Rightarrow> string list \<Rightarrow> string list" where
  "observe ob ks = (case ob of None \<Rightarrow> ks | Some k \<Rightarrow> if k \<in> set ks then ks else ks @ [k])"

primrec first_observed :: "string list \<Rightarrow> (Env \<times> WSMessage) list \<Rightarrow> string list" where
  "first_observed ks [] = ks"
| "first_observed ks (ev # evs) = first_observed (observe (observed_id ev) ks) evs"

text \<open>The identifiers of the stored messages whose role is \<^verbatim>\<open>status\<close>.\<close>

definition status_ids :: "ChatInterface \<Rightarrow> string set" where
  "status_ids s =
     set (map fst (filter (\<lambda>p. roleM (heap s (snd p)) = Some ''status'') (messageMap s)))"

text \<open>The fragments of the delta events for one identifier, in arrival order.\<close>

definition deltas_for :: "string \<Rightarrow> (Env \<times> WSMessage) list \<Rightarrow> string list" where
  "deltas_for i evs =
     map (\<lambda>ev. or_empty (deltaW (snd ev)))
         (filter (\<lambda>ev. typeW (snd ev) = ''text_delta'' \<and> idW (snd ev) = Some i) evs)"

text \<open>No control event of the sequence generates the identifier \<open>i\<close>.\<close>

definition generates :: "string \<Rightarrow> Env \<times> WSMessage \<Rightarrow> bool" where
  "generates i ev \<longleftrightarrow>
     typeW (snd ev) = ''control''
     \<and> (statusMessageId (fst ev) = i \<or> contrivedId (fst ev) = i)"

text \<open>
  The message with identifier \<open>i\<close> is the object at address \<open>a\<close>, an assistant
  message with content \<open>c\<close>, and it is not the current user message.
\<close>

definition tracked :: "ChatInterface \<Rightarrow> string \<Rightarrow> addr \<Rightarrow> string \<Rightarrow> bool" where
  "tracked s i a c \<longleftrightarrow>
     map_get (messageMap s) i = Some a
     \<and> heap s a = \<lparr>idM = i, contentM = c, roleM = Some ''assistant''\<rparr>
     \<and> currentUserMessage s \<noteq> Some a"

section \<open>The speaker output of the console client\<close>

text \<open>
  \<^verbatim>\<open>SpeakerOutput\<close> (listed in
  \<^verbatim>\<open>src/middle-tier/aspnet-realtime-middleware-explanation.md\<close>) owns a
  \<^verbatim>\<open>ConcurrentQueue<byte[]>\<close> and a \<^verbatim>\<open>BufferedWaveProvider\<close>. A background task moves
  one array per iteration from the queue to the provider; the output device
  (\<^verbatim>\<open>WaveOutEvent\<close>) pulls bytes from the provider. The concurrent actors are
  interleaved as atomic steps. The provider is a class of the NAudio library: a byte
  FIFO of \<^verbatim>\<open>BufferDuration\<close> (two minutes at 48000 bytes per second) whose
  \<^verbatim>\<open>AddSamples\<close> writes what fits and throws when something is left over. \<open>device\<close>
  is the sequence of bytes that the output device has pulled so far.
\<close>

type_synonym bytes = "8 word list"

record SpeakerOutput =
  audioQueue :: "bytes list"
  waveProvider :: bytes
  processingTask :: bool
  device :: bytes

definition BufferLength :: nat where
  "BufferLength = 48000 * 120"

definition SpeakerOutput_new :: SpeakerOutput where
  "SpeakerOutput_new = \<lparr>audioQueue = [], waveProvider = [], processingTask = True, device = []\<rparr>"

definition EnqueueForPlayback :: "bytes \<Rightarrow> SpeakerOutput \<Rightarrow> SpeakerOutput" where
  "EnqueueForPlayback audioData so = so\<lparr>audioQueue := audioQueue so @ [audioData]\<rparr>"

text \<open>
  One iteration of the loop of \<^verbatim>\<open>ProcessAudioQueue\<close>. \<open>processingTask\<close> is false
  once the task has ended (cancelled, or left by the exception of \<^verbatim>\<open>AddSamples\<close>).
\<close>

definition ProcessAudioQueue :: "SpeakerOutput \<Rightarrow> SpeakerOutput" where
  "ProcessAudioQueue so =
     (if \<not> processingTask so then so
      else (case audioQueue so of
              [] \<Rightarrow> so
            | buffer # rest \<Rightarrow>
                (let free = BufferLength - length (waveProvider so)
                 in so\<lparr>audioQueue := rest,
                       waveProvider := waveProvider so @ take free buffer,
                       processingTask := (length buffer \<le> free)\<rparr>)))"

definition ClearPlayback :: "SpeakerOutput \<Rightarrow> SpeakerOutput" where
  "ClearPlayback so = so\<lparr>waveProvider := []\<rparr>"

text \<open>The output device pulls up to \<open>n\<close> bytes from the provider.\<close>

definition device_read :: "nat \<Rightarrow> SpeakerOutput \<Rightarrow> SpeakerOutput" where
  "device_read n so = so\<lparr>device := device so @ take n (waveProvider so),
                          waveProvider := drop n (waveProvider so)\<rparr>"

datatype speaker_step = Enqueue bytes | Process | Clear | DeviceRead nat

fun step_speaker :: "speaker_step \<Rightarrow> SpeakerOutput \<Rightarrow> SpeakerOutput" where
  "step_speaker (Enqueue audioData) so = EnqueueForPlayback audioData so"
| "step_speaker Process so = ProcessAudioQueue so"
| "step_speaker Clear so = ClearPlayback so"
| "step_speaker (DeviceRead n) so = device_read n so"

definition speaker_run :: "speaker_step list \<Rightarrow> SpeakerOutput \<Rightarrow> SpeakerOutput" where
  "speaker_run steps so = fold step_speaker steps so"

section \<open>Wire messages\<close>

text \<open>
  The server-to-client messages of the wire format, as \<^verbatim>\<open>JSON.parse\<close> hands them to
  the handler: \<^verbatim>\<open>{"type":"text_delta","id":i,"delta":d}\<close>,
  \<^verbatim>\<open>{"type":"transcription","id":i,"text":t}\<close> and
  \<^verbatim>\<open>{"type":"control","action":a,"greeting":g?}\<close>.
\<close>

definition text_delta :: "string \<Rightarrow> string \<Rightarrow> WSMessage" where
  "text_delta i d = \<lparr>idW = Some i, typeW = ''text_delta'', deltaW = Some d, textW = None,
                     actionW = None, greetingW = None\<rparr>"

definition transcription :: "string \<Rightarrow> string \<Rightarrow> WSMessage" where
  "transcription i t = \<lparr>idW = Some i, typeW = ''transcription'', deltaW = None,
                        textW = Some t, actionW = None, greetingW = None\<rparr>"

definition control :: "string \<Rightarrow> string option \<Rightarrow> WSMessage" where
  "control a g = \<lparr>idW = None, typeW = ''control'', deltaW = None, textW = None,
                  actionW = Some a, greetingW = g\<rparr>"

text \<open>An environment: the clock reading and the random number, both as text.\<close>

definition at :: "string \<Rightarrow> string \<Rightarrow> Env" where
  "at now rnd = \<lparr>date_now = now, math_random = rnd\<rparr>"

section \<open>Lemmas about the map\<close>

lemma map_get_None_iff: "map_get m k = None \<longleftrightarrow> k \<notin> fst ` set m"
  by (induction m) auto

lemma map_get_Some_mem: "map_get m k = Some a \<Longrightarrow> (k, a) \<in> set m"
  by (induction m) (auto split: if_splits)

lemma map_get_mem: "distinct (map fst m) \<Longrightarrow> (k, a) \<in> set m \<Longrightarrow> map_get m k = Some a"
  by (induction m) (auto simp: rev_image_eqI)

lemma map_set_fresh: "k \<notin> fst ` set m \<Longrightarrow> map_set k v m = m @ [(k, v)]"
  by (induction m) auto

lemma map_set_keys_present: "k \<in> fst ` set m \<Longrightarrow> map fst (map_set k v m) = map fst m"
  by (induction m) auto

lemma map_get_map_set: "map_get (map_set k v m) k' = (if k' = k then Some v else map_get m k')"
  by (induction m) auto

lemma set_map_set: "set (map_set k v m) \<subseteq> insert (k, v) (set m)"
  by (induction m) auto

lemma mem_map_set: "(k, v) \<in> set (map_set k v m)"
  by (induction m) auto

lemma keys_map_set: "fst ` set (map_set k v m) = insert k (fst ` set m)"
  by (induction m) auto

lemma distinct_keys_map_set: "distinct (map fst m) \<Longrightarrow> distinct (map fst (map_set k v m))"
  by (induction m) (auto simp: keys_map_set)

lemma values_map_set: "snd ` set (map_set k v m) \<subseteq> insert v (snd ` set m)"
  by (induction m) auto

lemma distinct_values_map_set:
  "distinct (map snd m) \<Longrightarrow> v \<notin> snd ` set m \<Longrightarrow> distinct (map snd (map_set k v m))"
proof (induction m)
  case Nil
  then show ?case by simp
next
  case (Cons p ps)
  have "snd p \<notin> snd ` set (map_set k v ps)"
    using Cons.prems values_map_set [of k v ps] by auto
  with Cons show ?case by auto
qed

lemma map_delete_filter:
  "distinct (map fst m) \<Longrightarrow> map_delete k m = filter (\<lambda>p. fst p \<noteq> k) m"
proof (induction m)
  case Nil
  then show ?case by simp
next
  case (Cons p ps)
  then show ?case
    by (auto simp: rev_image_eqI intro!: filter_True [symmetric])
qed

lemma fold_map_delete:
  "distinct (map fst m) \<Longrightarrow> fold map_delete ks m = filter (\<lambda>p. fst p \<notin> set ks) m"
proof (induction ks arbitrary: m)
  case Nil
  then show ?case by simp
next
  case (Cons k ks)
  have d: "distinct (map fst (filter (\<lambda>p. fst p \<noteq> k) m))"
    using Cons.prems by (simp add: distinct_map_filter)
  show ?case
    using Cons.IH [OF d] Cons.prems
    by (simp add: map_delete_filter conj_commute)
qed

section \<open>The cases of the handler as state updates\<close>

lemma filter_not_removed:
  "distinct (map fst m) \<Longrightarrow>
   filter (\<lambda>p. fst p \<notin> set (map fst (filter P m))) m = filter (\<lambda>p. \<not> P p) m"
proof (rule filter_cong [OF refl])
  fix p assume d: "distinct (map fst m)" and p: "p \<in> set m"
  have "fst p \<in> fst ` set (filter P m) \<longleftrightarrow> P p"
  proof
    assume "fst p \<in> fst ` set (filter P m)"
    then obtain q where q: "q \<in> set m" "P q" "fst q = fst p" by auto
    from d p q have "q = p"
      by (metis eq_key_imp_eq_value prod.collapse)
    with q show "P p" by simp
  next
    assume "P p" with p show "fst p \<in> fst ` set (filter P m)" by auto
  qed
  then show "(fst p \<notin> set (map fst (filter P m))) = (\<not> P p)" by simp
qed

lemma fold_map_delete_filtered:
  "distinct (map fst m) \<Longrightarrow>
   fold map_delete (map fst (filter P m)) m = filter (\<lambda>p. \<not> P p) m"
  using fold_map_delete [of m "map fst (filter P m)"] filter_not_removed [of m P]
  by (simp only:)

lemma connected_case_eq:
  assumes "distinct (map fst (messageMap s))"
  shows "connected_case env s =
    (let h = (heap s)(nxt s := statusMessage env);
         m = filter (\<lambda>p. \<not> is_connecting (h (snd p)))
               (map_set (statusMessageId env) (nxt s) (messageMap s))
     in s\<lparr>heap := h, nxt := Suc (nxt s), messageMap := m,
           chatState := map (\<lambda>a. normalise (h a)) (map snd m)\<rparr>)"
  unfolding connected_case_def new_object_def Let_def split_def fst_conv snd_conv
    messagesToRemove_def setMessages_def Snapshot_def map_values_def
  using assms
  by (simp add: fold_map_delete_filtered distinct_keys_map_set is_connecting_def split_def
        del: fun_upd_apply)

lemma speech_started_case_eq:
  "speech_started_case env s =
    (let h = (heap s)(nxt s := userMessage env);
         m = map_set (contrivedId env) (nxt s) (messageMap s)
     in s\<lparr>heap := h, nxt := Suc (nxt s), messageMap := m,
           currentUserMessage := Some (nxt s),
           audioPlayerRef := map_option clear (audioPlayerRef s),
           chatState := map (\<lambda>a. normalise (h a)) (map snd m)\<rparr>)"
  unfolding speech_started_case_def new_object_def Let_def split_def fst_conv snd_conv
    setMessages_def Snapshot_def map_values_def
  by simp

lemma text_delta_case_new:
  assumes "idW message = Some i" "i \<noteq> []" "map_get (messageMap s) i = None"
  shows "text_delta_case message s =
    (let h = (heap s)(nxt s := newMessage i (or_empty (deltaW message)));
         m = messageMap s @ [(i, nxt s)]
     in s\<lparr>heap := h, nxt := Suc (nxt s), messageMap := m,
           chatState := map (\<lambda>a. normalise (h a)) (map snd m)\<rparr>)"
proof -
  have "map_set i (nxt s) (messageMap s) = messageMap s @ [(i, nxt s)]"
    using assms(3) by (simp add: map_set_fresh map_get_None_iff)
  then show ?thesis
    unfolding text_delta_case_def new_object_def Let_def split_def fst_conv snd_conv
      setMessages_def Snapshot_def map_values_def
    using assms by simp
qed

lemma text_delta_case_existing:
  assumes "idW message = Some i" "i \<noteq> []" "map_get (messageMap s) i = Some a"
  shows "text_delta_case message s =
    (let h = (heap s)(a := (heap s a)\<lparr>contentM := contentM (heap s a) @ or_empty (deltaW message)\<rparr>)
     in s\<lparr>heap := h, chatState := map (\<lambda>a. normalise (h a)) (map snd (messageMap s))\<rparr>)"
  unfolding text_delta_case_def Let_def setMessages_def Snapshot_def map_values_def
  using assms by simp

lemma text_delta_case_ignored:
  "\<not> truthy (idW message) \<Longrightarrow> text_delta_case message s = s"
  by (auto simp: text_delta_case_def truthy_def split: option.splits)

lemma transcription_case_eq:
  assumes "currentUserMessage s = Some cur" "truthy (idW message)"
  shows "transcription_case message s =
    (let h = (heap s)(cur := (heap s cur)\<lparr>contentM := or_empty (textW message)\<rparr>)
     in s\<lparr>heap := h, chatState := map (\<lambda>a. normalise (h a)) (map snd (messageMap s))\<rparr>)"
  unfolding transcription_case_def Let_def setMessages_def Snapshot_def map_values_def
  using assms by simp

lemma transcription_case_ignored:
  "currentUserMessage s = None \<or> \<not> truthy (idW message) \<Longrightarrow> transcription_case message s = s"
  by (auto simp: transcription_case_def split: option.splits)

section \<open>The invariant is preserved\<close>

lemma invar_initial: "invar initial"
  by (simp add: invar_def initial_def)

lemma invar_set_fresh:
  assumes "invar s" "idM msg = k"
  shows "invar (s\<lparr>heap := (heap s)(nxt s := msg), nxt := Suc (nxt s),
                  messageMap := map_set k (nxt s) (messageMap s), chatState := c\<rparr>)"
proof -
  have fresh: "nxt s \<notin> snd ` set (messageMap s)"
    using assms(1) by (auto simp: invar_def)
  let ?m = "map_set k (nxt s) (messageMap s)"
  let ?h = "(heap s)(nxt s := msg)"
  have sub: "set ?m \<subseteq> insert (k, nxt s) (set (messageMap s))"
    by (rule set_map_set)
  have ball: "\<forall>(k', a) \<in> set ?m. a < Suc (nxt s) \<and> idM (?h a) = k'"
  proof (clarify)
    fix k' a assume "(k', a) \<in> set ?m"
    with sub have "(k', a) = (k, nxt s) \<or> (k', a) \<in> set (messageMap s)" by auto
    then show "a < Suc (nxt s) \<and> idM (?h a) = k'"
      using assms fresh by (auto simp: invar_def)
  qed
  have dk: "distinct (map fst ?m)"
    using assms(1) by (simp add: invar_def distinct_keys_map_set)
  have dv: "distinct (map snd ?m)"
    using assms(1) fresh by (simp add: invar_def distinct_values_map_set)
  have cur: "case currentUserMessage s of None \<Rightarrow> True | Some a \<Rightarrow> a < Suc (nxt s)"
    using assms(1) by (auto simp: invar_def split: option.splits)
  show ?thesis
    unfolding invar_def using ball dk dv cur by (simp split: option.splits)
qed

lemma invar_content:
  assumes "invar s"
  shows "invar (s\<lparr>heap := (heap s)(a := (heap s a)\<lparr>contentM := c\<rparr>), chatState := l\<rparr>)"
  using assms by (auto simp: invar_def split: option.splits)

lemma invar_filter:
  assumes "invar s"
  shows "invar (s\<lparr>messageMap := filter P (messageMap s)\<rparr>)"
  using assms by (auto simp: invar_def distinct_map_filter split: option.splits)

lemma invar_cur:
  assumes "invar s" "a < nxt s"
  shows "invar (s\<lparr>currentUserMessage := Some a\<rparr>)"
  using assms by (auto simp: invar_def)

lemma invar_player:
  assumes "invar s"
  shows "invar (s\<lparr>audioPlayerRef := p\<rparr>)"
  using assms by (auto simp: invar_def split: option.splits)

lemma invar_chatState:
  assumes "invar s"
  shows "invar (s\<lparr>chatState := p\<rparr>)"
  using assms by (auto simp: invar_def split: option.splits)

lemma invar_text_delta_case: "invar s \<Longrightarrow> invar (text_delta_case message s)"
proof (cases "truthy (idW message)")
  case False
  assume "invar s"
  with False show ?thesis by (simp add: text_delta_case_ignored)
next
  case True
  assume inv: "invar s"
  from True obtain i where i: "idW message = Some i" "i \<noteq> []"
    by (auto simp: truthy_def split: option.splits)
  show ?thesis
  proof (cases "map_get (messageMap s) i")
    case None
    then have "map_set i (nxt s) (messageMap s) = messageMap s @ [(i, nxt s)]"
      by (simp add: map_set_fresh map_get_None_iff)
    with invar_set_fresh [OF inv, of "newMessage i (or_empty (deltaW message))" i] show ?thesis
      by (simp add: text_delta_case_new [OF i None] Let_def newMessage_def)
  next
    case (Some a)
    show ?thesis
      using invar_content [OF inv]
      by (simp add: text_delta_case_existing [OF i Some] Let_def)
  qed
qed

lemma invar_transcription_case: "invar s \<Longrightarrow> invar (transcription_case message s)"
proof (cases "currentUserMessage s = None \<or> \<not> truthy (idW message)")
  case True
  assume "invar s"
  with True show ?thesis by (simp add: transcription_case_ignored)
next
  case False
  assume inv: "invar s"
  from False obtain cur where c: "currentUserMessage s = Some cur" "truthy (idW message)"
    by auto
  show ?thesis
    using invar_content [OF inv]
    by (simp add: transcription_case_eq [OF c] Let_def)
qed

lemma invar_speech_started_case: "invar s \<Longrightarrow> invar (speech_started_case env s)"
proof -
  assume inv: "invar s"
  let ?k = "contrivedId env"
  let ?h = "(heap s)(nxt s := userMessage env)"
  let ?m = "map_set ?k (nxt s) (messageMap s)"
  let ?c = "map (\<lambda>a. normalise (?h a)) (map snd ?m)"
  let ?s1 = "s\<lparr>heap := ?h, nxt := Suc (nxt s), messageMap := ?m, chatState := ?c\<rparr>"
  have 1: "invar ?s1"
    by (rule invar_set_fresh [OF inv]) (simp add: userMessage_def)
  have 2: "invar (?s1\<lparr>currentUserMessage := Some (nxt s)\<rparr>)"
    by (rule invar_cur [OF 1]) simp
  have 3: "invar (?s1\<lparr>currentUserMessage := Some (nxt s),
                       audioPlayerRef := map_option clear (audioPlayerRef s)\<rparr>)"
    by (rule invar_player [OF 2])
  have "speech_started_case env s =
        ?s1\<lparr>currentUserMessage := Some (nxt s),
             audioPlayerRef := map_option clear (audioPlayerRef s)\<rparr>"
    by (simp add: speech_started_case_eq Let_def)
  with 3 show ?thesis by simp
qed

lemma invar_connected_case: "invar s \<Longrightarrow> invar (connected_case env s)"
proof -
  assume inv: "invar s"
  then have d: "distinct (map fst (messageMap s))" by (simp add: invar_def)
  let ?k = "statusMessageId env"
  let ?h = "(heap s)(nxt s := statusMessage env)"
  let ?m = "map_set ?k (nxt s) (messageMap s)"
  let ?P = "\<lambda>p. \<not> is_connecting (?h (snd p))"
  let ?s1 = "s\<lparr>heap := ?h, nxt := Suc (nxt s), messageMap := ?m, chatState := []\<rparr>"
  have 1: "invar ?s1"
    by (rule invar_set_fresh [OF inv]) (simp add: statusMessage_def)
  have 2: "invar (?s1\<lparr>messageMap := filter ?P (messageMap ?s1)\<rparr>)"
    by (rule invar_filter [OF 1])
  have 3: "invar (?s1\<lparr>messageMap := filter ?P (messageMap ?s1),
                       chatState := map (\<lambda>a. normalise (?h a)) (map snd (filter ?P ?m))\<rparr>)"
    by (rule invar_chatState [OF 2])
  have "connected_case env s =
        ?s1\<lparr>messageMap := filter ?P (messageMap ?s1),
             chatState := map (\<lambda>a. normalise (?h a)) (map snd (filter ?P ?m))\<rparr>"
    by (simp add: connected_case_eq [OF d] Let_def del: fun_upd_apply)
  with 3 show ?thesis by simp
qed

lemma invar_handleConnect: "invar s \<Longrightarrow> invar (handleConnect env s)"
proof -
  assume inv: "invar s"
  let ?c = "s\<lparr>messageMap := []\<rparr>"
  let ?m = "\<lparr>idM = statusMessageId env, contentM = ''Connecting...'', roleM = Some ''status''\<rparr>"
  have c: "invar ?c"
    using inv by (auto simp: invar_def split: option.splits)
  have "invar (?c\<lparr>heap := (heap ?c)(nxt ?c := ?m), nxt := Suc (nxt ?c),
                   messageMap := map_set (statusMessageId env) (nxt ?c) (messageMap ?c),
                   chatState := [normalise ?m]\<rparr>)"
    by (rule invar_set_fresh [OF c]) simp
  then show ?thesis
    by (simp add: handleConnect_def new_object_def setMessages_def Snapshot_def map_values_def
          Let_def)
qed

lemma invar_handleWSMessage: "invar s \<Longrightarrow> invar (handleWSMessage env message s)"
  by (simp add: handleWSMessage_def invar_text_delta_case invar_transcription_case
        invar_speech_started_case invar_connected_case)

lemma invar_run: "invar s \<Longrightarrow> invar (run evs s)"
  by (induction evs arbitrary: s) (simp_all add: invar_handleWSMessage)

section \<open>What the snapshot shows\<close>

lemma Snapshot_stored: "Snapshot s = map normalise (stored s)"
  by (simp add: Snapshot_def stored_def)

lemma idM_normalise [simp]: "idM (normalise m) = idM m"
  by (simp add: normalise_def)

lemma contentM_normalise [simp]: "contentM (normalise m) = contentM m"
  by (simp add: normalise_def)

lemma filter_key:
  "distinct (map fst m) \<Longrightarrow> map_get m k = Some a \<Longrightarrow> filter (\<lambda>p. fst p = k) m = [(k, a)]"
proof (induction m)
  case Nil
  then show ?case by simp
next
  case (Cons p ps)
  show ?case
  proof (cases "fst p = k")
    case True
    with Cons.prems have "filter (\<lambda>p. fst p = k) ps = []"
      by (auto simp: filter_empty_conv rev_image_eqI)
    with True Cons.prems show ?thesis by (cases p) auto
  next
    case False
    with Cons show ?thesis by simp
  qed
qed

lemma filter_key_absent:
  "map_get m k = None \<Longrightarrow> filter (\<lambda>p. fst p = k) m = []"
  by (auto simp: map_get_None_iff filter_empty_conv)

lemma stored_ids: "invar s \<Longrightarrow> map idM (stored s) = map fst (messageMap s)"
  by (auto simp: stored_def map_values_def invar_def)

lemma Snapshot_ids: "invar s \<Longrightarrow> map idM (Snapshot s) = map fst (messageMap s)"
  by (simp add: Snapshot_stored stored_ids [symmetric] comp_def)

lemma stored_at_key:
  assumes "invar s" "map_get (messageMap s) k = Some a"
  shows "filter (\<lambda>m. idM m = k) (stored s) = [heap s a]"
proof -
  have "filter (\<lambda>m. idM m = k) (stored s)
        = map (\<lambda>p. heap s (snd p)) (filter (\<lambda>p. idM (heap s (snd p)) = k) (messageMap s))"
    by (simp add: stored_def map_values_def filter_map comp_def)
  also have "filter (\<lambda>p. idM (heap s (snd p)) = k) (messageMap s)
             = filter (\<lambda>p. fst p = k) (messageMap s)"
    using assms(1) by (intro filter_cong) (auto simp: invar_def)
  also have "\<dots> = [(k, a)]"
    using assms by (simp add: filter_key invar_def)
  finally show ?thesis by simp
qed

lemma Snapshot_at_key:
  assumes "invar s" "map_get (messageMap s) k = Some a"
  shows "filter (\<lambda>m. idM m = k) (Snapshot s) = [normalise (heap s a)]"
proof -
  have "filter (\<lambda>m. idM m = k) (Snapshot s)
        = map normalise (filter (\<lambda>m. idM m = k) (stored s))"
    by (simp add: Snapshot_stored filter_map comp_def)
  then show ?thesis
    by (simp add: stored_at_key [OF assms])
qed

lemma Snapshot_setMessages [simp]: "Snapshot (setMessages s) = Snapshot s"
  by (simp add: setMessages_def Snapshot_def)

lemma chatState_setMessages [simp]: "chatState (setMessages s) = Snapshot s"
  by (simp add: setMessages_def)

lemma transcription_case_cases:
  "transcription_case message s = s \<or> (\<exists>t. transcription_case message s = setMessages t)"
  by (cases "currentUserMessage s"; cases "truthy (idW message)")
     (auto simp: transcription_case_def)

lemma text_delta_case_cases:
  "text_delta_case message s = s \<or> (\<exists>t. text_delta_case message s = setMessages t)"
proof (cases "truthy (idW message)")
  case False
  then show ?thesis by (simp add: text_delta_case_ignored)
next
  case True
  then obtain i where i: "idW message = Some i" "i \<noteq> []"
    by (auto simp: truthy_def split: option.splits)
  show ?thesis
    by (cases "map_get (messageMap s) i")
       (auto simp: text_delta_case_def i split_def Let_def intro: exI)
qed

lemma handleWSMessage_cases:
  "handleWSMessage env message s = s \<or> (\<exists>t. handleWSMessage env message s = setMessages t)"
proof -
  have c: "\<exists>t. connected_case env s = setMessages t"
    unfolding connected_case_def Let_def split_def by (rule exI) (rule refl)
  have p: "\<exists>t. speech_started_case env s = setMessages t"
    unfolding speech_started_case_def Let_def split_def by (rule exI) (rule refl)
  show ?thesis
    unfolding handleWSMessage_def
    using c p transcription_case_cases [of message s] text_delta_case_cases [of message s]
    by simp
qed

lemma chatState_handleWSMessage:
  "chatState s = Snapshot s \<Longrightarrow>
   chatState (handleWSMessage env message s) = Snapshot (handleWSMessage env message s)"
  using handleWSMessage_cases [of env message s] by auto

lemma chatState_run:
  "chatState s = Snapshot s \<Longrightarrow> chatState (run evs s) = Snapshot (run evs s)"
  by (induction evs arbitrary: s) (simp_all add: chatState_handleWSMessage)

section \<open>The connected event\<close>

lemma is_connecting_normalise [simp]: "is_connecting (normalise m) = is_connecting m"
  by (auto simp: is_connecting_def normalise_def)

lemma not_connecting_statusMessage [simp]: "\<not> is_connecting (statusMessage env)"
  by (simp add: is_connecting_def statusMessage_def)

lemma normalise_statusMessage [simp]: "normalise (statusMessage env) = statusMessage env"
  by (simp add: normalise_def statusMessage_def)

lemma heap_old:
  assumes "invar s" "p \<in> set (messageMap s)"
  shows "((heap s)(nxt s := x)) (snd p) = heap s (snd p)"
  using assms by (auto simp: invar_def)

lemma stored_append_fresh:
  assumes inv: "invar s"
  shows "map ((heap s)(nxt s := x)) (map snd (messageMap s)) = stored s"
  using heap_old [OF inv] by (simp add: stored_def map_values_def del: fun_upd_apply)

lemma stored_connected_case:
  assumes inv: "invar s" and fresh: "statusMessageId env \<notin> set (map_keys (messageMap s))"
  shows "stored (connected_case env s)
         = filter (\<lambda>m. \<not> is_connecting m) (stored s) @ [statusMessage env]"
proof -
  let ?k = "statusMessageId env"
  let ?h = "(heap s)(nxt s := statusMessage env)"
  have d: "distinct (map fst (messageMap s))"
    using inv by (simp add: invar_def)
  have set: "map_set ?k (nxt s) (messageMap s) = messageMap s @ [(?k, nxt s)]"
    using fresh by (simp add: map_set_fresh map_keys_def)
  have old: "filter (\<lambda>p. \<not> is_connecting (?h (snd p))) (messageMap s)
             = filter (\<lambda>p. \<not> is_connecting (heap s (snd p))) (messageMap s)"
    by (rule filter_cong [OF refl]) (simp only: heap_old [OF inv])
  have m: "messageMap (connected_case env s)
           = filter (\<lambda>p. \<not> is_connecting (heap s (snd p))) (messageMap s) @ [(?k, nxt s)]"
    using old by (simp add: connected_case_eq [OF d] Let_def set del: fun_upd_apply) simp
  have h: "heap (connected_case env s) = ?h"
    by (simp add: connected_case_eq [OF d] Let_def del: fun_upd_apply)
  have "map ?h (map snd (filter (\<lambda>p. \<not> is_connecting (heap s (snd p))) (messageMap s)))
        = map (heap s) (map snd (filter (\<lambda>p. \<not> is_connecting (heap s (snd p))) (messageMap s)))"
    using heap_old [OF inv] by (simp del: fun_upd_apply)
  also have "\<dots> = filter (\<lambda>m. \<not> is_connecting m) (stored s)"
    by (simp add: stored_def map_values_def filter_map comp_def)
  finally show ?thesis
    by (simp add: stored_def map_values_def m h del: fun_upd_apply) simp
qed

section \<open>Updating the content of one message\<close>

lemma normalise_content: "normalise (m\<lparr>contentM := c\<rparr>) = (normalise m)\<lparr>contentM := c\<rparr>"
  by (simp add: normalise_def)

lemma key_of_address:
  assumes "invar s" "map_get (messageMap s) k = Some a" "p \<in> set (messageMap s)"
  shows "snd p = a \<longleftrightarrow> fst p = k"
proof
  assume "snd p = a"
  moreover have "(k, a) \<in> set (messageMap s)"
    using assms(2) by (rule map_get_Some_mem)
  moreover have "distinct (map snd (messageMap s))"
    using assms(1) by (simp add: invar_def)
  ultimately show "fst p = k"
    using assms(3) by (metis distinct_map inj_on_def prod.collapse snd_conv fst_conv)
next
  assume "fst p = k"
  then have "(k, snd p) \<in> set (messageMap s)"
    using assms(3) by (metis prod.collapse)
  then have "map_get (messageMap s) k = Some (snd p)"
    using assms(1) by (simp add: map_get_mem invar_def)
  with assms(2) show "snd p = a" by simp
qed

lemma Snapshot_update_content:
  assumes "invar s" "map_get (messageMap s) k = Some a"
  shows "map (\<lambda>b. normalise (((heap s)(a := (heap s a)\<lparr>contentM := c\<rparr>)) b))
             (map snd (messageMap s))
         = map (\<lambda>m. if idM m = k then m\<lparr>contentM := c\<rparr> else m) (Snapshot s)"
proof -
  have "\<And>p. p \<in> set (messageMap s) \<Longrightarrow>
          normalise (((heap s)(a := (heap s a)\<lparr>contentM := c\<rparr>)) (snd p))
          = (if idM (normalise (heap s (snd p))) = k
             then (normalise (heap s (snd p)))\<lparr>contentM := c\<rparr>
             else normalise (heap s (snd p)))"
  proof -
    fix p assume p: "p \<in> set (messageMap s)"
    have id: "idM (heap s (snd p)) = fst p"
      using assms(1) p by (auto simp: invar_def)
    show "normalise (((heap s)(a := (heap s a)\<lparr>contentM := c\<rparr>)) (snd p))
          = (if idM (normalise (heap s (snd p))) = k
             then (normalise (heap s (snd p)))\<lparr>contentM := c\<rparr>
             else normalise (heap s (snd p)))"
      using key_of_address [OF assms p] id by (auto simp: normalise_content)
  qed
  then show ?thesis
    by (simp add: Snapshot_def map_values_def)
qed

section \<open>One message along the events\<close>

lemma tracked_addr: "invar s \<Longrightarrow> tracked s i a c \<Longrightarrow> a < nxt s"
  by (auto simp: tracked_def invar_def dest!: map_get_Some_mem)

lemma tracked_transcription_case:
  assumes "tracked s i a c"
  shows "tracked (transcription_case message s) i a c"
proof (cases "currentUserMessage s = None \<or> \<not> truthy (idW message)")
  case True
  with assms show ?thesis by (simp add: transcription_case_ignored)
next
  case False
  then obtain cur where c: "currentUserMessage s = Some cur" "truthy (idW message)"
    by auto
  with assms have "cur \<noteq> a" by (auto simp: tracked_def)
  with assms c show ?thesis
    by (simp add: transcription_case_eq [OF c] Let_def tracked_def)
qed

lemma tracked_text_delta_case_same:
  assumes "i \<noteq> []" "tracked s i a c" "idW message = Some i"
  shows "tracked (text_delta_case message s) i a (c @ or_empty (deltaW message))"
proof -
  have g: "map_get (messageMap s) i = Some a"
    using assms(2) by (simp add: tracked_def)
  show ?thesis
    using assms(2)
    by (simp add: text_delta_case_existing [OF assms(3) assms(1) g] Let_def tracked_def)
qed

lemma tracked_text_delta_case_other:
  assumes inv: "invar s" and tr: "tracked s i a c" and other: "idW message \<noteq> Some i"
  shows "tracked (text_delta_case message s) i a c"
proof (cases "truthy (idW message)")
  case False
  with tr show ?thesis by (simp add: text_delta_case_ignored)
next
  case True
  then obtain j where j: "idW message = Some j" "j \<noteq> []"
    by (auto simp: truthy_def split: option.splits)
  with other have ji: "j \<noteq> i" by simp
  have a: "a < nxt s" using inv tr by (rule tracked_addr)
  have g: "map_get (messageMap s) i = Some a"
    using tr by (simp add: tracked_def)
  show ?thesis
  proof (cases "map_get (messageMap s) j")
    case None
    have "map_get (messageMap s @ [(j, nxt s)]) i = Some a"
      using map_get_map_set [of j "nxt s" "messageMap s" i] None ji g
      by (simp add: map_set_fresh map_get_None_iff)
    with tr a show ?thesis
      by (simp add: text_delta_case_new [OF j None] Let_def tracked_def)
  next
    case (Some b)
    have "(j, b) \<in> set (messageMap s)"
      using Some by (rule map_get_Some_mem)
    with key_of_address [OF inv g, of "(j, b)"] ji have "b \<noteq> a" by auto
    with tr show ?thesis
      by (simp add: text_delta_case_existing [OF j Some] Let_def tracked_def)
  qed
qed

lemma tracked_speech_started_case:
  assumes inv: "invar s" and tr: "tracked s i a c" and other: "contrivedId env \<noteq> i"
  shows "tracked (speech_started_case env s) i a c"
proof -
  have a: "a < nxt s" using inv tr by (rule tracked_addr)
  with tr other show ?thesis
    by (auto simp: speech_started_case_eq Let_def tracked_def map_get_map_set)
qed

lemma tracked_connected_case:
  assumes inv: "invar s" and tr: "tracked s i a c" and other: "statusMessageId env \<noteq> i"
  shows "tracked (connected_case env s) i a c"
proof -
  let ?h = "(heap s)(nxt s := statusMessage env)"
  let ?m = "filter (\<lambda>p. \<not> is_connecting (?h (snd p)))
              (map_set (statusMessageId env) (nxt s) (messageMap s))"
  have a: "a < nxt s" using inv tr by (rule tracked_addr)
  have d: "distinct (map fst (messageMap s))"
    using inv by (simp add: invar_def)
  have h: "?h a = \<lparr>idM = i, contentM = c, roleM = Some ''assistant''\<rparr>"
    using a tr by (simp add: tracked_def)
  have "map_get (map_set (statusMessageId env) (nxt s) (messageMap s)) i = Some a"
    using tr other by (simp add: map_get_map_set tracked_def)
  then have "(i, a) \<in> set (map_set (statusMessageId env) (nxt s) (messageMap s))"
    by (rule map_get_Some_mem)
  then have mem: "(i, a) \<in> set ?m"
    using h by (simp add: is_connecting_def del: fun_upd_apply)
  have "distinct (map fst ?m)"
    using d by (simp add: distinct_map_filter distinct_keys_map_set)
  then have "map_get ?m i = Some a"
    using mem by (rule map_get_mem)
  then show ?thesis
    using tr h by (simp add: connected_case_eq [OF d] Let_def tracked_def del: fun_upd_apply)
qed

lemma tracked_handleWSMessage:
  assumes "invar s" "i \<noteq> []" "tracked s i a c" "\<not> generates i (env, message)"
  shows "tracked (handleWSMessage env message s) i a (c @ concat (deltas_for i [(env, message)]))"
proof -
  consider (tr) "typeW message = ''transcription''"
    | (same) "typeW message = ''text_delta''" "idW message = Some i"
    | (other) "typeW message = ''text_delta''" "idW message \<noteq> Some i"
    | (conn) "typeW message = ''control''" "actionW message = Some ''connected''"
             "truthy (greetingW message)"
    | (speech) "typeW message = ''control''" "actionW message = Some ''speech_started''"
    | (none) "handleWSMessage env message s = s" "typeW message \<noteq> ''text_delta''"
    unfolding handleWSMessage_def by fastforce
  then show ?thesis
  proof cases
    case tr
    with assms(3) show ?thesis
      by (simp add: handleWSMessage_def deltas_for_def tracked_transcription_case)
  next
    case same
    with assms show ?thesis
      by (simp add: handleWSMessage_def deltas_for_def tracked_text_delta_case_same)
  next
    case other
    with assms show ?thesis
      by (simp add: handleWSMessage_def deltas_for_def tracked_text_delta_case_other)
  next
    case conn
    with assms show ?thesis
      by (simp add: handleWSMessage_def deltas_for_def tracked_connected_case generates_def)
  next
    case speech
    with assms show ?thesis
      by (simp add: handleWSMessage_def deltas_for_def tracked_speech_started_case generates_def)
  next
    case none
    with assms show ?thesis
      by (simp add: deltas_for_def)
  qed
qed

lemma absent_transcription_case:
  "map_get (messageMap (transcription_case message s)) i = map_get (messageMap s) i"
proof (cases "currentUserMessage s = None \<or> \<not> truthy (idW message)")
  case True
  then show ?thesis by (simp add: transcription_case_ignored)
next
  case False
  then obtain cur where c: "currentUserMessage s = Some cur" "truthy (idW message)"
    by auto
  show ?thesis
    by (simp add: transcription_case_eq [OF c] Let_def)
qed

lemma absent_text_delta_case:
  assumes "map_get (messageMap s) i = None" "idW message \<noteq> Some i"
  shows "map_get (messageMap (text_delta_case message s)) i = None"
proof (cases "truthy (idW message)")
  case False
  with assms show ?thesis by (simp add: text_delta_case_ignored)
next
  case True
  then obtain j where j: "idW message = Some j" "j \<noteq> []"
    by (auto simp: truthy_def split: option.splits)
  with assms have ji: "j \<noteq> i" by simp
  show ?thesis
  proof (cases "map_get (messageMap s) j")
    case None
    have "map_get (messageMap s @ [(j, nxt s)]) i = None"
      using map_get_map_set [of j "nxt s" "messageMap s" i] None ji assms(1)
      by (simp add: map_set_fresh map_get_None_iff)
    then show ?thesis
      by (simp add: text_delta_case_new [OF j None] Let_def)
  next
    case (Some b)
    with assms show ?thesis
      by (simp add: text_delta_case_existing [OF j Some] Let_def)
  qed
qed

lemma created_text_delta_case:
  assumes "invar s" "i \<noteq> []" "map_get (messageMap s) i = None" "idW message = Some i"
  shows "tracked (text_delta_case message s) i (nxt s) (or_empty (deltaW message))"
proof -
  have "map_get (messageMap s @ [(i, nxt s)]) i = Some (nxt s)"
    using map_get_map_set [of i "nxt s" "messageMap s" i] assms(3)
    by (simp add: map_set_fresh map_get_None_iff)
  moreover have "currentUserMessage s \<noteq> Some (nxt s)"
    using assms(1) by (auto simp: invar_def)
  ultimately show ?thesis
    by (simp add: text_delta_case_new [OF assms(4) assms(2) assms(3)] Let_def tracked_def
          newMessage_def)
qed

lemma absent_speech_started_case:
  assumes "map_get (messageMap s) i = None" "contrivedId env \<noteq> i"
  shows "map_get (messageMap (speech_started_case env s)) i = None"
  using assms by (simp add: speech_started_case_eq Let_def map_get_map_set)

lemma absent_connected_case:
  assumes "invar s" "map_get (messageMap s) i = None" "statusMessageId env \<noteq> i"
  shows "map_get (messageMap (connected_case env s)) i = None"
proof -
  have d: "distinct (map fst (messageMap s))"
    using assms(1) by (simp add: invar_def)
  have "i \<notin> fst ` set (map_set (statusMessageId env) (nxt s) (messageMap s))"
    using assms(2,3) by (simp add: keys_map_set map_get_None_iff)
  then show ?thesis
    by (auto simp: connected_case_eq [OF d] Let_def map_get_None_iff simp del: fun_upd_apply)
qed

lemma absent_handleWSMessage:
  assumes "invar s" "i \<noteq> []" "map_get (messageMap s) i = None"
    and "\<not> generates i (env, message)"
  shows "if typeW message = ''text_delta'' \<and> idW message = Some i
         then tracked (handleWSMessage env message s) i (nxt s) (or_empty (deltaW message))
         else map_get (messageMap (handleWSMessage env message s)) i = None"
proof -
  consider (tr) "typeW message = ''transcription''"
    | (same) "typeW message = ''text_delta''" "idW message = Some i"
    | (other) "typeW message = ''text_delta''" "idW message \<noteq> Some i"
    | (conn) "typeW message = ''control''" "actionW message = Some ''connected''"
             "truthy (greetingW message)"
    | (speech) "typeW message = ''control''" "actionW message = Some ''speech_started''"
    | (none) "handleWSMessage env message s = s" "typeW message \<noteq> ''text_delta''"
    unfolding handleWSMessage_def by fastforce
  then show ?thesis
  proof cases
    case tr
    with assms(3) show ?thesis
      by (simp add: handleWSMessage_def absent_transcription_case)
  next
    case same
    with assms show ?thesis
      by (simp add: handleWSMessage_def created_text_delta_case)
  next
    case other
    with assms show ?thesis
      by (simp add: handleWSMessage_def absent_text_delta_case)
  next
    case conn
    with assms show ?thesis
      by (simp add: handleWSMessage_def absent_connected_case generates_def)
  next
    case speech
    with assms show ?thesis
      by (simp add: handleWSMessage_def absent_speech_started_case generates_def)
  next
    case none
    with assms show ?thesis by simp
  qed
qed

lemma deltas_for_Cons:
  "deltas_for i (ev # evs) = deltas_for i [ev] @ deltas_for i evs"
  by (simp add: deltas_for_def)

lemma tracked_run:
  assumes "invar s" "i \<noteq> []" "tracked s i a c" "\<forall>ev \<in> set evs. \<not> generates i ev"
  shows "tracked (run evs s) i a (c @ concat (deltas_for i evs))"
  using assms
proof (induction evs arbitrary: s c)
  case Nil
  then show ?case by (simp add: deltas_for_def)
next
  case (Cons ev evs)
  let ?s1 = "handleWSMessage (fst ev) (snd ev) s"
  have g: "\<not> generates i (fst ev, snd ev)"
    using Cons.prems(4) by simp
  have inv1: "invar ?s1"
    using Cons.prems(1) by (rule invar_handleWSMessage)
  have tr1: "tracked ?s1 i a (c @ concat (deltas_for i [ev]))"
    using tracked_handleWSMessage [OF Cons.prems(1) Cons.prems(2) Cons.prems(3) g] by simp
  have "tracked (run evs ?s1) i a ((c @ concat (deltas_for i [ev])) @ concat (deltas_for i evs))"
    using Cons.prems(4) by (intro Cons.IH [OF inv1 Cons.prems(2) tr1]) simp
  then show ?case
    by (simp add: deltas_for_Cons [of i ev evs])
qed

lemma absent_run:
  assumes "invar s" "i \<noteq> []" "map_get (messageMap s) i = None"
    and "\<forall>ev \<in> set evs. \<not> generates i ev"
  shows "if deltas_for i evs = []
         then map_get (messageMap (run evs s)) i = None
         else (\<exists>a. tracked (run evs s) i a (concat (deltas_for i evs)))"
  using assms
proof (induction evs arbitrary: s)
  case Nil
  then show ?case by (simp add: deltas_for_def)
next
  case (Cons ev evs)
  let ?s1 = "handleWSMessage (fst ev) (snd ev) s"
  have g: "\<not> generates i (fst ev, snd ev)"
    using Cons.prems(4) by simp
  have rest: "\<forall>ev \<in> set evs. \<not> generates i ev"
    using Cons.prems(4) by simp
  have inv1: "invar ?s1"
    using Cons.prems(1) by (rule invar_handleWSMessage)
  note step = absent_handleWSMessage [OF Cons.prems(1) Cons.prems(2) Cons.prems(3) g]
  show ?case
  proof (cases "typeW (snd ev) = ''text_delta'' \<and> idW (snd ev) = Some i")
    case True
    with step have tr1: "tracked ?s1 i (nxt s) (or_empty (deltaW (snd ev)))" by simp
    have d: "deltas_for i (ev # evs) = or_empty (deltaW (snd ev)) # deltas_for i evs"
      using True by (simp add: deltas_for_def)
    show ?thesis
      using tracked_run [OF inv1 Cons.prems(2) tr1 rest] by (auto simp: d)
  next
    case False
    with step have ab1: "map_get (messageMap ?s1) i = None" by simp
    have d: "deltas_for i (ev # evs) = deltas_for i evs"
      using False by (auto simp: deltas_for_def)
    show ?thesis
      using Cons.IH [OF inv1 Cons.prems(2) ab1 rest] by (simp add: d)
  qed
qed

lemma run_unchanged_or_shown:
  "run evs s = s \<or> chatState (run evs s) = Snapshot (run evs s)"
proof (induction evs arbitrary: s)
  case Nil
  then show ?case by simp
next
  case (Cons ev evs)
  from handleWSMessage_cases [of "fst ev" "snd ev" s] show ?case
  proof
    assume "handleWSMessage (fst ev) (snd ev) s = s"
    with Cons.IH [of s] show ?thesis by simp
  next
    assume "\<exists>t. handleWSMessage (fst ev) (snd ev) s = setMessages t"
    then obtain t where t: "handleWSMessage (fst ev) (snd ev) s = setMessages t" ..
    have "chatState (setMessages t) = Snapshot (setMessages t)" by simp
    then have "chatState (run evs (setMessages t)) = Snapshot (run evs (setMessages t))"
      by (rule chatState_run)
    with t show ?thesis by simp
  qed
qed

section \<open>The order of the keys\<close>

lemma keys_map_set_add:
  "map fst (map_set k v m) = (if k \<in> set (map fst m) then map fst m else map fst m @ [k])"
  by (induction m) auto

lemma keys_filter:
  "distinct (map fst m) \<Longrightarrow>
   map fst (filter P m) = filter (\<lambda>x. x \<notin> fst ` {p \<in> set m. \<not> P p}) (map fst m)"
proof -
  assume d: "distinct (map fst m)"
  have "\<And>p. p \<in> set m \<Longrightarrow> (fst p \<notin> fst ` {p \<in> set m. \<not> P p}) = P p"
  proof -
    fix p assume p: "p \<in> set m"
    show "(fst p \<notin> fst ` {p \<in> set m. \<not> P p}) = P p"
    proof
      assume "fst p \<notin> fst ` {p \<in> set m. \<not> P p}"
      with p show "P p" by auto
    next
      assume P: "P p"
      show "fst p \<notin> fst ` {p \<in> set m. \<not> P p}"
      proof
        assume "fst p \<in> fst ` {p \<in> set m. \<not> P p}"
        then obtain q where q: "q \<in> set m" "\<not> P q" "fst q = fst p" by auto
        from d p q have "q = p"
          by (metis eq_key_imp_eq_value prod.collapse)
        with q P show False by simp
      qed
    qed
  qed
  then have "filter (\<lambda>p. fst p \<notin> fst ` {p \<in> set m. \<not> P p}) m = filter P m"
    by (intro filter_cong) auto
  then show ?thesis
    by (simp add: filter_map comp_def)
qed

lemma status_after_set:
  assumes "invar s" "roleM x \<noteq> Some ''status''"
    and "p \<in> set (map_set k (nxt s) (messageMap s))"
    and "roleM (((heap s)(nxt s := x)) (snd p)) = Some ''status''"
  shows "fst p \<in> status_ids s"
proof -
  from assms(3) set_map_set [of k "nxt s" "messageMap s"]
  have "p = (k, nxt s) \<or> p \<in> set (messageMap s)" by auto
  then show ?thesis
  proof
    assume "p = (k, nxt s)"
    with assms(2,4) show ?thesis by simp
  next
    assume p: "p \<in> set (messageMap s)"
    with assms(4) heap_old [OF assms(1) p, of x]
    have "roleM (heap s (snd p)) = Some ''status''" by simp
    with p show ?thesis by (auto simp: status_ids_def)
  qed
qed

lemma status_ids_content:
  "status_ids (s\<lparr>heap := (heap s)(a := (heap s a)\<lparr>contentM := c\<rparr>), chatState := l\<rparr>)
   = status_ids s"
proof -
  have "\<And>b. roleM (((heap s)(a := (heap s a)\<lparr>contentM := c\<rparr>)) b) = roleM (heap s b)"
    by simp
  then show ?thesis
    by (simp add: status_ids_def del: fun_upd_apply)
qed

text \<open>Adding an observed identifier at the end unless it is there.\<close>

lemma step_transcription_case:
  "map fst (messageMap (transcription_case message s)) = map fst (messageMap s)
   \<and> status_ids (transcription_case message s) = status_ids s"
proof (cases "currentUserMessage s = None \<or> \<not> truthy (idW message)")
  case True
  then show ?thesis by (simp add: transcription_case_ignored)
next
  case False
  then obtain cur where c: "currentUserMessage s = Some cur" "truthy (idW message)"
    by auto
  show ?thesis
    using status_ids_content [where s = s and a = cur]
    by (simp add: transcription_case_eq [OF c] Let_def del: fun_upd_apply)
qed

lemma step_text_delta_case:
  assumes inv: "invar s" and i: "idW message = Some i" "i \<noteq> []"
  shows "map fst (messageMap (text_delta_case message s))
         = (if i \<in> set (map fst (messageMap s)) then map fst (messageMap s)
            else map fst (messageMap s) @ [i])
   \<and> status_ids (text_delta_case message s) \<subseteq> status_ids s"
proof (cases "map_get (messageMap s) i")
  case None
  let ?h = "(heap s)(nxt s := newMessage i (or_empty (deltaW message)))"
  have notin: "i \<notin> set (map fst (messageMap s))"
    using None by (simp add: map_get_None_iff)
  have set: "messageMap s @ [(i, nxt s)] = map_set i (nxt s) (messageMap s)"
    using notin by (simp add: map_set_fresh)
  have "\<And>p. p \<in> set (map_set i (nxt s) (messageMap s)) \<Longrightarrow>
             roleM (?h (snd p)) = Some ''status'' \<Longrightarrow> fst p \<in> status_ids s"
    by (rule status_after_set [OF inv]) (simp_all add: newMessage_def)
  then have "status_ids (text_delta_case message s) \<subseteq> status_ids s"
    unfolding text_delta_case_new [OF i None] Let_def set
    by (auto simp: status_ids_def simp del: fun_upd_apply)
  moreover have "map fst (messageMap (text_delta_case message s)) = map fst (messageMap s) @ [i]"
    by (simp add: text_delta_case_new [OF i None] Let_def)
  ultimately show ?thesis using notin by simp
next
  case (Some a)
  then have "i \<in> set (map fst (messageMap s))"
    using map_get_None_iff [of "messageMap s" i] by auto
  then show ?thesis
    using status_ids_content [where s = s and a = a]
    by (simp add: text_delta_case_existing [OF i Some] Let_def del: fun_upd_apply)
qed

lemma step_speech_started_case:
  assumes inv: "invar s"
  shows "map fst (messageMap (speech_started_case env s))
         = (if contrivedId env \<in> set (map fst (messageMap s)) then map fst (messageMap s)
            else map fst (messageMap s) @ [contrivedId env])
   \<and> status_ids (speech_started_case env s) \<subseteq> status_ids s"
proof -
  let ?h = "(heap s)(nxt s := userMessage env)"
  have "\<And>p. p \<in> set (map_set (contrivedId env) (nxt s) (messageMap s)) \<Longrightarrow>
             roleM (?h (snd p)) = Some ''status'' \<Longrightarrow> fst p \<in> status_ids s"
    by (rule status_after_set [OF inv]) (simp_all add: userMessage_def)
  then have "status_ids (speech_started_case env s) \<subseteq> status_ids s"
    unfolding speech_started_case_eq Let_def
    by (auto simp: status_ids_def simp del: fun_upd_apply)
  then show ?thesis
    by (simp add: speech_started_case_eq Let_def keys_map_set_add)
qed

lemma step_connected_case:
  assumes inv: "invar s"
  shows "\<exists>R. R \<subseteq> status_ids s
           \<and> map fst (messageMap (connected_case env s))
             = filter (\<lambda>x. x \<notin> R)
                 (if statusMessageId env \<in> set (map fst (messageMap s))
                  then map fst (messageMap s)
                  else map fst (messageMap s) @ [statusMessageId env])"
    and "status_ids (connected_case env s) \<subseteq> status_ids s"
proof -
  let ?h = "(heap s)(nxt s := statusMessage env)"
  let ?M = "map_set (statusMessageId env) (nxt s) (messageMap s)"
  let ?P = "\<lambda>p. \<not> is_connecting (?h (snd p))"
  let ?R = "fst ` {p \<in> set ?M. \<not> ?P p}"
  have d: "distinct (map fst (messageMap s))"
    using inv by (simp add: invar_def)
  have dM: "distinct (map fst ?M)"
    using d by (rule distinct_keys_map_set)
  have st: "\<And>p. p \<in> set ?M \<Longrightarrow> roleM (?h (snd p)) = Some ''status'' \<Longrightarrow> fst p \<in> status_ids s"
    by (rule status_after_set [OF inv]) (simp_all add: statusMessage_def)
  have R: "?R \<subseteq> status_ids s"
    using st by (auto simp: is_connecting_def simp del: fun_upd_apply)
  have m: "messageMap (connected_case env s) = filter ?P ?M"
    by (simp add: connected_case_eq [OF d] Let_def del: fun_upd_apply)
  have h: "heap (connected_case env s) = ?h"
    by (simp add: connected_case_eq [OF d] Let_def del: fun_upd_apply)
  have "map fst (messageMap (connected_case env s)) = filter (\<lambda>x. x \<notin> ?R) (map fst ?M)"
    unfolding m by (rule keys_filter [OF dM])
  then have "map fst (messageMap (connected_case env s))
             = filter (\<lambda>x. x \<notin> ?R)
                 (if statusMessageId env \<in> set (map fst (messageMap s))
                  then map fst (messageMap s)
                  else map fst (messageMap s) @ [statusMessageId env])"
    by (simp only: keys_map_set_add)
  with R show "\<exists>R. R \<subseteq> status_ids s
           \<and> map fst (messageMap (connected_case env s))
             = filter (\<lambda>x. x \<notin> R)
                 (if statusMessageId env \<in> set (map fst (messageMap s))
                  then map fst (messageMap s)
                  else map fst (messageMap s) @ [statusMessageId env])"
    by blast
  show "status_ids (connected_case env s) \<subseteq> status_ids s"
    using st unfolding status_ids_def m h by (auto simp del: fun_upd_apply)
qed

lemma observe_survivors:
  assumes K: "K = filter (\<lambda>x. x \<in> set K) FO" and gone: "set FO - set K \<subseteq> St"
    and R: "R \<subseteq> St" and ob: "\<forall>k. ob = Some k \<longrightarrow> k \<notin> St"
    and K1: "K1 = filter (\<lambda>x. x \<notin> R) (observe ob K)"
  shows "K1 = filter (\<lambda>x. x \<in> set K1) (observe ob FO) \<and> set (observe ob FO) - set K1 \<subseteq> St"
proof -
  have sub: "set K \<subseteq> set FO"
    using K by (metis filter_is_subset)
  have keep: "filter (\<lambda>x. x \<in> set K \<and> x \<notin> R) FO = filter (\<lambda>x. x \<notin> R) K"
  proof -
    have "filter (\<lambda>x. x \<notin> R) K = filter (\<lambda>x. x \<notin> R) (filter (\<lambda>x. x \<in> set K) FO)"
      using K by simp
    then show ?thesis by (simp add: conj_commute)
  qed
  show ?thesis
  proof (cases ob)
    case None
    then have k1: "K1 = filter (\<lambda>x. x \<notin> R) K" and fo: "observe ob FO = FO"
      using K1 by (simp_all add: observe_def)
    have "set K1 = set K - R" unfolding k1 by auto
    then have "filter (\<lambda>x. x \<in> set K1) FO = filter (\<lambda>x. x \<in> set K \<and> x \<notin> R) FO"
      by simp
    with keep k1 have "K1 = filter (\<lambda>x. x \<in> set K1) FO" by simp
    moreover have "set FO - set K1 \<subseteq> St"
      using gone R \<open>set K1 = set K - R\<close> by auto
    ultimately show ?thesis by (simp add: fo)
  next
    case (Some k)
    with ob have kSt: "k \<notin> St" by simp
    with R have kR: "k \<notin> R" by auto
    show ?thesis
    proof (cases "k \<in> set K")
      case True
      with sub have "k \<in> set FO" by auto
      with True Some have k1: "K1 = filter (\<lambda>x. x \<notin> R) K" and fo: "observe ob FO = FO"
        using K1 by (simp_all add: observe_def)
      have "set K1 = set K - R" unfolding k1 by auto
      then have "filter (\<lambda>x. x \<in> set K1) FO = filter (\<lambda>x. x \<in> set K \<and> x \<notin> R) FO"
        by simp
      with keep k1 have "K1 = filter (\<lambda>x. x \<in> set K1) FO" by simp
      moreover have "set FO - set K1 \<subseteq> St"
        using gone R \<open>set K1 = set K - R\<close> by auto
      ultimately show ?thesis by (simp add: fo)
    next
      case False
      have kFO: "k \<notin> set FO"
        using False gone kSt by auto
      from False Some kR have k1: "K1 = filter (\<lambda>x. x \<notin> R) K @ [k]"
        using K1 by (simp add: observe_def)
      from kFO Some have fo: "observe ob FO = FO @ [k]"
        by (simp add: observe_def)
      have s1: "set K1 = insert k (set K - R)" unfolding k1 by auto
      have "filter (\<lambda>x. x \<in> set K1) FO = filter (\<lambda>x. x \<in> set K \<and> x \<notin> R) FO"
        unfolding s1 using kFO by (intro filter_cong) auto
      with keep have "filter (\<lambda>x. x \<in> set K1) (FO @ [k]) = K1"
        by (simp add: k1 [symmetric] s1)
      moreover have "set (FO @ [k]) - set K1 \<subseteq> St"
        using gone R s1 by auto
      ultimately show ?thesis by (simp add: fo)
    qed
  qed
qed

lemma step_handleWSMessage:
  assumes inv: "invar s"
  shows "\<exists>R. R \<subseteq> status_ids s
           \<and> map fst (messageMap (handleWSMessage env message s))
             = filter (\<lambda>x. x \<notin> R) (observe (observed_id (env, message)) (map fst (messageMap s)))"
    and "status_ids (handleWSMessage env message s) \<subseteq> status_ids s"
proof -
  let ?K = "map fst (messageMap s)"
  let ?s' = "handleWSMessage env message s"
  have nothing: "\<And>ks::string list. filter (\<lambda>x. x \<notin> {}) ks = ks" by simp
  consider (tr) "typeW message = ''transcription''"
    | (delta) i where "typeW message = ''text_delta''" "idW message = Some i" "i \<noteq> []"
    | (conn) "typeW message = ''control''" "actionW message = Some ''connected''"
             "truthy (greetingW message)"
    | (speech) "typeW message = ''control''" "actionW message = Some ''speech_started''"
    | (none) "?s' = s" "observed_id (env, message) = None"
  proof (cases "typeW message = ''transcription''")
    case True
    then show ?thesis by (rule that(1))
  next
    case nt: False
    show ?thesis
    proof (cases "typeW message = ''text_delta''")
      case True
      show ?thesis
      proof (cases "truthy (idW message)")
        case t: True
        then obtain i where "idW message = Some i" "i \<noteq> []"
          by (auto simp: truthy_def split: option.splits)
        with True show ?thesis by (rule that(2))
      next
        case False
        with True have "?s' = s" "observed_id (env, message) = None"
          by (simp_all add: handleWSMessage_def observed_id_def text_delta_case_ignored)
        then show ?thesis by (rule that(5))
      qed
    next
      case nd: False
      show ?thesis
      proof (cases "typeW message = ''control''")
        case True
        show ?thesis
        proof (cases "actionW message = Some ''connected'' \<and> truthy (greetingW message)")
          case c: True
          with True show ?thesis using that(3) by simp
        next
          case nc: False
          show ?thesis
          proof (cases "actionW message = Some ''speech_started''")
            case sp: True
            with True show ?thesis by (rule that(4))
          next
            case False
            with True nc nt nd have "?s' = s" "observed_id (env, message) = None"
              by (auto simp: handleWSMessage_def observed_id_def)
            then show ?thesis by (rule that(5))
          qed
        qed
      next
        case False
        with nt nd have "?s' = s" "observed_id (env, message) = None"
          by (simp_all add: handleWSMessage_def observed_id_def)
        then show ?thesis by (rule that(5))
      qed
    qed
  qed
  then have "(\<exists>R. R \<subseteq> status_ids s
           \<and> map fst (messageMap ?s')
             = filter (\<lambda>x. x \<notin> R) (observe (observed_id (env, message)) ?K))
      \<and> status_ids ?s' \<subseteq> status_ids s"
  proof cases
    case tr
    then have o: "observed_id (env, message) = None"
      by (simp add: observed_id_def)
    have h: "?s' = transcription_case message s"
      using tr by (simp add: handleWSMessage_def)
    have "{} \<subseteq> status_ids s
          \<and> map fst (messageMap ?s') = filter (\<lambda>x. x \<notin> {}) (observe None ?K)"
      unfolding h using step_transcription_case [of message s] by (simp add: observe_def)
    then have "\<exists>R. R \<subseteq> status_ids s
          \<and> map fst (messageMap ?s') = filter (\<lambda>x. x \<notin> R) (observe None ?K)"
      by (rule exI)
    moreover have "status_ids ?s' \<subseteq> status_ids s"
      unfolding h using step_transcription_case [of message s] by simp
    ultimately show ?thesis unfolding o by (rule conjI)
  next
    case delta
    then have o: "observed_id (env, message) = Some i"
      by (simp add: observed_id_def truthy_def)
    have h: "?s' = text_delta_case message s"
      using delta by (simp add: handleWSMessage_def)
    have "{} \<subseteq> status_ids s
          \<and> map fst (messageMap ?s') = filter (\<lambda>x. x \<notin> {}) (observe (Some i) ?K)"
      unfolding h using step_text_delta_case [OF inv delta(2,3)] by (simp add: observe_def)
    then have "\<exists>R. R \<subseteq> status_ids s
          \<and> map fst (messageMap ?s') = filter (\<lambda>x. x \<notin> R) (observe (Some i) ?K)"
      by (rule exI)
    moreover have "status_ids ?s' \<subseteq> status_ids s"
      unfolding h using step_text_delta_case [OF inv delta(2,3)] by simp
    ultimately show ?thesis unfolding o by (rule conjI)
  next
    case conn
    then have o: "observed_id (env, message) = Some (statusMessageId env)"
      by (simp add: observed_id_def)
    have h: "?s' = connected_case env s"
      using conn by (simp add: handleWSMessage_def)
    have "\<exists>R. R \<subseteq> status_ids s
          \<and> map fst (messageMap ?s')
            = filter (\<lambda>x. x \<notin> R) (observe (Some (statusMessageId env)) ?K)"
      unfolding h observe_def option.case by (rule step_connected_case(1) [OF inv])
    moreover have "status_ids ?s' \<subseteq> status_ids s"
      unfolding h by (rule step_connected_case(2) [OF inv])
    ultimately show ?thesis unfolding o by (rule conjI)
  next
    case speech
    then have o: "observed_id (env, message) = Some (contrivedId env)"
      by (simp add: observed_id_def)
    have h: "?s' = speech_started_case env s"
      using speech by (simp add: handleWSMessage_def)
    have "{} \<subseteq> status_ids s
          \<and> map fst (messageMap ?s')
            = filter (\<lambda>x. x \<notin> {}) (observe (Some (contrivedId env)) ?K)"
      unfolding h using step_speech_started_case [OF inv, of env] by (simp add: observe_def)
    then have "\<exists>R. R \<subseteq> status_ids s
          \<and> map fst (messageMap ?s')
            = filter (\<lambda>x. x \<notin> R) (observe (Some (contrivedId env)) ?K)"
      by (rule exI)
    moreover have "status_ids ?s' \<subseteq> status_ids s"
      unfolding h using step_speech_started_case [OF inv, of env] by simp
    ultimately show ?thesis unfolding o by (rule conjI)
  next
    case none
    have "{} \<subseteq> status_ids s
          \<and> map fst (messageMap ?s') = filter (\<lambda>x. x \<notin> {}) (observe None ?K)"
      using none by (simp add: observe_def)
    then have "\<exists>R. R \<subseteq> status_ids s
          \<and> map fst (messageMap ?s') = filter (\<lambda>x. x \<notin> R) (observe None ?K)"
      by (rule exI)
    moreover have "status_ids ?s' \<subseteq> status_ids s"
      using none by simp
    ultimately show ?thesis unfolding none(2) by (rule conjI)
  qed
  then show "\<exists>R. R \<subseteq> status_ids s
           \<and> map fst (messageMap (handleWSMessage env message s))
             = filter (\<lambda>x. x \<notin> R) (observe (observed_id (env, message)) (map fst (messageMap s)))"
    and "status_ids (handleWSMessage env message s) \<subseteq> status_ids s"
    by (rule conjunct1, rule conjunct2)
qed

lemma order_run:
  assumes "invar s" "status_ids s \<subseteq> St"
    and "\<forall>ev \<in> set evs. \<forall>k. observed_id ev = Some k \<longrightarrow> k \<notin> St"
    and "map fst (messageMap s) = filter (\<lambda>x. x \<in> set (map fst (messageMap s))) FO"
    and "set FO - set (map fst (messageMap s)) \<subseteq> St"
  shows "map fst (messageMap (run evs s))
           = filter (\<lambda>x. x \<in> set (map fst (messageMap (run evs s)))) (first_observed FO evs)
         \<and> set (first_observed FO evs) - set (map fst (messageMap (run evs s))) \<subseteq> St"
  using assms
proof (induction evs arbitrary: s FO)
  case Nil
  show ?case
    unfolding run.simps first_observed.simps
    using Nil.prems(4) Nil.prems(5) by (rule conjI)
next
  case (Cons ev evs)
  let ?s1 = "handleWSMessage (fst ev) (snd ev) s"
  let ?FO1 = "observe (observed_id ev) FO"
  have inv1: "invar ?s1"
    using Cons.prems(1) by (rule invar_handleWSMessage)
  have st1: "status_ids ?s1 \<subseteq> St"
    using step_handleWSMessage(2) [OF Cons.prems(1), of "fst ev" "snd ev"] Cons.prems(2)
    by auto
  have rest: "\<forall>ev \<in> set evs. \<forall>k. observed_id ev = Some k \<longrightarrow> k \<notin> St"
    using Cons.prems(3) by simp
  have ob: "\<forall>k. observed_id ev = Some k \<longrightarrow> k \<notin> St"
    using Cons.prems(3) by simp
  from step_handleWSMessage(1) [OF Cons.prems(1), of "fst ev" "snd ev"]
  obtain R where R: "R \<subseteq> status_ids s"
    and K1: "map fst (messageMap ?s1)
             = filter (\<lambda>x. x \<notin> R) (observe (observed_id ev) (map fst (messageMap s)))"
    by auto
  have RSt: "R \<subseteq> St" using R Cons.prems(2) by auto
  note L = observe_survivors [OF Cons.prems(4) Cons.prems(5) RSt ob K1]
  have "map fst (messageMap (run evs ?s1))
           = filter (\<lambda>x. x \<in> set (map fst (messageMap (run evs ?s1)))) (first_observed ?FO1 evs)
         \<and> set (first_observed ?FO1 evs) - set (map fst (messageMap (run evs ?s1))) \<subseteq> St"
    using Cons.IH [OF inv1 st1 rest conjunct1 [OF L] conjunct2 [OF L]] .
  then show ?case
    unfolding run.simps first_observed.simps .
qed

section \<open>Frames that the receive loop drops\<close>

lemma receive_frames_append:
  "receive_frames parse (xs @ ys) s =
     (fst (receive_frames parse xs s) @ fst (receive_frames parse ys (snd (receive_frames parse xs s))),
      snd (receive_frames parse ys (snd (receive_frames parse xs s))))"
  by (induction xs arbitrary: s) (simp_all add: split_def Let_def)

lemma handleWSMessage_unrecognised:
  "typeW m \<notin> {''transcription'', ''text_delta'', ''control''} \<Longrightarrow> handleWSMessage env m s = s"
  by (simp add: handleWSMessage_def)

lemma receive_frame_dropped:
  assumes "parse d = None
           \<or> (\<exists>m. parse d = Some m \<and> typeW m \<notin> {''transcription'', ''text_delta'', ''control''})"
  shows "receive_frame parse env (Text d) s
         = ([case parse d of None \<Rightarrow> ErrorParsing d | Some m \<Rightarrow> Received m], s)"
proof (cases "parse d")
  case None
  then show ?thesis by (simp add: receive_frame_def)
next
  case (Some m)
  with assms have "typeW m \<notin> {''transcription'', ''text_delta'', ''control''}" by auto
  then have "handleWSMessage env m s = s" by (rule handleWSMessage_unrecognised)
  with Some show ?thesis by (simp add: receive_frame_def)
qed

section \<open>Role normalisation\<close>

text \<open>
  C8. In the list that \<^verbatim>\<open>setMessages\<close> produces, every message whose role is not
  exactly \<^verbatim>\<open>'user'\<close> or \<^verbatim>\<open>'status'\<close> (a role such as \<^verbatim>\<open>'system'\<close>, or no role at
  all) has the role \<^verbatim>\<open>'assistant'\<close>, while a message tagged \<^verbatim>\<open>'user'\<close> or
  \<^verbatim>\<open>'status'\<close> is presented as it is stored; identifier and content are never touched.
\<close>

theorem setMessages_normalises_roles:
  "chatState (setMessages s) = map (\<lambda>a. normalise (heap s a)) (map snd (messageMap s))
   \<and> (roleM m \<noteq> Some ''user'' \<and> roleM m \<noteq> Some ''status''
        \<longrightarrow> normalise m = m\<lparr>roleM := Some ''assistant''\<rparr>)
   \<and> (roleM m = Some ''user'' \<or> roleM m = Some ''status'' \<longrightarrow> normalise m = m)
   \<and> idM (normalise m) = idM m \<and> contentM (normalise m) = contentM m"
  by (simp add: setMessages_def Snapshot_def map_values_def normalise_def)

theorem setMessages_normalises_roles_witness:
  "normalise \<lparr>idM = ''m1'', contentM = ''hello'', roleM = Some ''system''\<rparr>
     = \<lparr>idM = ''m1'', contentM = ''hello'', roleM = Some ''assistant''\<rparr>
   \<and> normalise \<lparr>idM = ''m2'', contentM = ''hello'', roleM = None\<rparr>
     = \<lparr>idM = ''m2'', contentM = ''hello'', roleM = Some ''assistant''\<rparr>
   \<and> normalise \<lparr>idM = ''m3'', contentM = ''Connecting...'', roleM = Some ''status''\<rparr>
     = \<lparr>idM = ''m3'', contentM = ''Connecting...'', roleM = Some ''status''\<rparr>"
  using setMessages_normalises_roles
          [of initial "\<lparr>idM = ''m1'', contentM = ''hello'', roleM = Some ''system''\<rparr>"]
        setMessages_normalises_roles
          [of initial "\<lparr>idM = ''m2'', contentM = ''hello'', roleM = None\<rparr>"]
        setMessages_normalises_roles
          [of initial "\<lparr>idM = ''m3'', contentM = ''Connecting...'', roleM = Some ''status''\<rparr>"]
  by simp

section \<open>The greeting of the connected event\<close>

text \<open>
  C10. When a control message with action \<^verbatim>\<open>connected\<close> is handled and its greeting is
  present and not empty, the message stored under \<^verbatim>\<open>status-<now>\<close> and shown in the
  snapshot has the fixed content "You are now connected to the real-time processing
  server" and the role \<^verbatim>\<open>assistant\<close>, whatever the text of the greeting; when the
  greeting is missing or empty, the state is left as it was: nothing is inserted and
  nothing is cleaned up.
\<close>

theorem connected_greeting_is_fixed:
  assumes "invar s" "typeW message = ''control''" "actionW message = Some ''connected''"
  shows "(truthy (greetingW message) \<longrightarrow>
           filter (\<lambda>m. idM m = statusMessageId env)
                  (chatState (handleWSMessage env message s))
             = [\<lparr>idM = ''status-'' @ date_now env,
                 contentM = ''You are now connected to the real-time processing server'',
                 roleM = Some ''assistant''\<rparr>])
       \<and> (\<not> truthy (greetingW message) \<longrightarrow> handleWSMessage env message s = s)"
proof (intro conjI impI)
  assume "\<not> truthy (greetingW message)"
  with assms show "handleWSMessage env message s = s"
    by (simp add: handleWSMessage_def)
next
  assume g: "truthy (greetingW message)"
  let ?k = "statusMessageId env"
  let ?s' = "handleWSMessage env message s"
  have h: "?s' = connected_case env s"
    using assms g by (simp add: handleWSMessage_def)
  have d: "distinct (map fst (messageMap s))"
    using assms(1) by (simp add: invar_def)
  have inv': "invar ?s'"
    using assms(1) by (rule invar_handleWSMessage)
  have heap': "heap ?s' (nxt s) = statusMessage env"
    by (simp add: h connected_case_eq [OF d] Let_def)
  have "(?k, nxt s) \<in> set (messageMap ?s')"
    by (simp add: h connected_case_eq [OF d] Let_def mem_map_set)
  with inv' have get: "map_get (messageMap ?s') ?k = Some (nxt s)"
    by (simp add: map_get_mem invar_def)
  have "chatState ?s' = Snapshot ?s'"
    by (simp add: h connected_case_def Let_def split_def)
  then have "filter (\<lambda>m. idM m = ?k) (chatState ?s') = [statusMessage env]"
    using Snapshot_at_key [OF inv' get] heap' by simp
  then show "filter (\<lambda>m. idM m = ?k) (chatState ?s')
             = [\<lparr>idM = ''status-'' @ date_now env,
                 contentM = ''You are now connected to the real-time processing server'',
                 roleM = Some ''assistant''\<rparr>]"
    by (simp add: statusMessage_def statusMessageId_def)
qed

theorem connected_greeting_is_fixed_witness:
  "invar (handleConnect (at ''1700000000000'' ''0.25'') initial)
   \<and> filter (\<lambda>m. idM m = ''status-1700000000007'')
        (chatState (handleWSMessage (at ''1700000000007'' ''0.25'')
                      (control ''connected'' (Some ''Hello from the server''))
                      (handleConnect (at ''1700000000000'' ''0.25'') initial)))
      = [\<lparr>idM = ''status-1700000000007'',
          contentM = ''You are now connected to the real-time processing server'',
          roleM = Some ''assistant''\<rparr>]
   \<and> handleWSMessage (at ''1700000000007'' ''0.25'') (control ''connected'' None)
        (handleConnect (at ''1700000000000'' ''0.25'') initial)
      = handleConnect (at ''1700000000000'' ''0.25'') initial"
proof -
  let ?s = "handleConnect (at ''1700000000000'' ''0.25'') initial"
  have inv: "invar ?s"
    by (simp add: handleConnect_def at_def initial_def new_object_def setMessages_def
          invar_def Let_def statusMessageId_def)
  show ?thesis
    using inv
      connected_greeting_is_fixed [OF inv, of "control ''connected'' (Some ''Hello from the server'')"
        "at ''1700000000007'' ''0.25''"]
      connected_greeting_is_fixed [OF inv, of "control ''connected'' None"
        "at ''1700000000007'' ''0.25''"]
    by (simp add: control_def at_def truthy_def statusMessageId_def)
qed

section \<open>The frame of the connected event\<close>

text \<open>
  C7, as the code has it. A Connected control event is acted upon only when it carries a
  greeting that is present and not empty. Then, provided the generated identifier
  \<^verbatim>\<open>status-<now>\<close> is not yet a key of the map, exactly one greeting message is
  appended, exactly the messages whose role is \<^verbatim>\<open>status\<close> and whose content contains
  \<^verbatim>\<open>Connecting\<close> are removed, and every other message keeps its place and its value;
  the current user message and the player are untouched, and the snapshot is the
  normalised view of the result.
\<close>

theorem connected_frame:
  assumes "invar s" "typeW message = ''control''" "actionW message = Some ''connected''"
    and "truthy (greetingW message)"
    and "statusMessageId env \<notin> set (map_keys (messageMap s))"
  shows "stored (handleWSMessage env message s)
           = filter (\<lambda>m. \<not> (roleM m = Some ''status''
                              \<and> str_includes (contentM m) ''Connecting'')) (stored s)
             @ [statusMessage env]
       \<and> chatState (handleWSMessage env message s)
           = filter (\<lambda>m. \<not> (roleM m = Some ''status''
                              \<and> str_includes (contentM m) ''Connecting'')) (Snapshot s)
             @ [statusMessage env]
       \<and> currentUserMessage (handleWSMessage env message s) = currentUserMessage s
       \<and> audioPlayerRef (handleWSMessage env message s) = audioPlayerRef s"
proof -
  let ?s' = "handleWSMessage env message s"
  have h: "?s' = connected_case env s"
    using assms by (simp add: handleWSMessage_def)
  have d: "distinct (map fst (messageMap s))"
    using assms(1) by (simp add: invar_def)
  have st: "stored ?s' = filter (\<lambda>m. \<not> is_connecting m) (stored s) @ [statusMessage env]"
    unfolding h using assms(1) assms(5) by (rule stored_connected_case)
  have "chatState ?s' = Snapshot ?s'"
    by (simp add: h connected_case_def Let_def split_def)
  also have "\<dots> = map normalise (stored ?s')"
    by (rule Snapshot_stored)
  also have "\<dots> = filter (\<lambda>m. \<not> is_connecting m) (Snapshot s) @ [statusMessage env]"
    unfolding st by (simp add: Snapshot_stored filter_map comp_def)
  finally have cs: "chatState ?s'
      = filter (\<lambda>m. \<not> is_connecting m) (Snapshot s) @ [statusMessage env]" .
  have rest: "currentUserMessage ?s' = currentUserMessage s \<and> audioPlayerRef ?s' = audioPlayerRef s"
    by (simp add: h connected_case_eq [OF d] Let_def)
  from st cs rest show ?thesis by (simp add: is_connecting_def)
qed

theorem connected_frame_witness:
  "invar (handleWSMessage (at ''1700000000003'' ''0.25'') (text_delta ''item_1'' ''Hi'')
            (handleConnect (at ''1700000000000'' ''0.25'') initial))
   \<and> truthy (greetingW (control ''connected'' (Some ''Hello from the server'')))
   \<and> statusMessageId (at ''1700000000007'' ''0.25'')
        \<notin> set (map_keys (messageMap
              (handleWSMessage (at ''1700000000003'' ''0.25'') (text_delta ''item_1'' ''Hi'')
                 (handleConnect (at ''1700000000000'' ''0.25'') initial))))
   \<and> Snapshot (handleWSMessage (at ''1700000000003'' ''0.25'') (text_delta ''item_1'' ''Hi'')
                 (handleConnect (at ''1700000000000'' ''0.25'') initial))
      = [\<lparr>idM = ''status-1700000000000'', contentM = ''Connecting...'',
          roleM = Some ''status''\<rparr>,
         \<lparr>idM = ''item_1'', contentM = ''Hi'', roleM = Some ''assistant''\<rparr>]
   \<and> chatState (handleWSMessage (at ''1700000000007'' ''0.25'')
                  (control ''connected'' (Some ''Hello from the server''))
                  (handleWSMessage (at ''1700000000003'' ''0.25'') (text_delta ''item_1'' ''Hi'')
                     (handleConnect (at ''1700000000000'' ''0.25'') initial)))
      = [\<lparr>idM = ''item_1'', contentM = ''Hi'', roleM = Some ''assistant''\<rparr>,
         \<lparr>idM = ''status-1700000000007'',
          contentM = ''You are now connected to the real-time processing server'',
          roleM = Some ''assistant''\<rparr>]"
proof -
  let ?c = "handleConnect (at ''1700000000000'' ''0.25'') initial"
  let ?s = "handleWSMessage (at ''1700000000003'' ''0.25'') (text_delta ''item_1'' ''Hi'') ?c"
  let ?m = "control ''connected'' (Some ''Hello from the server'')"
  have s0: "?c = \<lparr>heap = (heap initial)(0 := \<lparr>idM = ''status-1700000000000'',
                        contentM = ''Connecting...'', roleM = Some ''status''\<rparr>),
                 nxt = 1, messageMap = [(''status-1700000000000'', 0)],
                 currentUserMessage = None,
                 chatState = [\<lparr>idM = ''status-1700000000000'', contentM = ''Connecting...'',
                                roleM = Some ''status''\<rparr>],
                 audioPlayerRef = None\<rparr>"
    by (simp add: handleConnect_def at_def initial_def new_object_def setMessages_def
          Snapshot_def map_values_def normalise_def Let_def statusMessageId_def)
  have inv0: "invar ?c"
    unfolding s0 by (simp add: invar_def)
  have inv: "invar ?s"
    using inv0 by (rule invar_handleWSMessage)
  have m: "messageMap ?s = [(''status-1700000000000'', 0), (''item_1'', 1)]"
    unfolding s0
    by (simp add: handleWSMessage_def text_delta_def text_delta_case_def new_object_def
          setMessages_def Let_def)
  have snap: "Snapshot ?s
      = [\<lparr>idM = ''status-1700000000000'', contentM = ''Connecting...'',
          roleM = Some ''status''\<rparr>,
         \<lparr>idM = ''item_1'', contentM = ''Hi'', roleM = Some ''assistant''\<rparr>]"
    unfolding s0
    by (simp add: handleWSMessage_def text_delta_def text_delta_case_def new_object_def
          setMessages_def Let_def Snapshot_def map_values_def normalise_def newMessage_def
          or_empty_def)
  have g: "truthy (greetingW ?m)"
    by (simp add: control_def truthy_def)
  have fresh: "statusMessageId (at ''1700000000007'' ''0.25'') \<notin> set (map_keys (messageMap ?s))"
    unfolding m by (simp add: statusMessageId_def at_def map_keys_def)
  have t: "typeW ?m = ''control''" and a: "actionW ?m = Some ''connected''"
    by (simp_all add: control_def)
  show ?thesis
    using inv g fresh snap connected_frame [OF inv t a g fresh]
    by (simp add: statusMessage_def statusMessageId_def at_def)
qed

text \<open>
  C7 as the specification states it ("every Connected control event inserts exactly one
  greeting message and removes the connecting messages") fails when the event carries no
  greeting: after \<^verbatim>\<open>handleConnect\<close>, a Connected event without a greeting leaves the
  pending "Connecting..." message as the only message.
\<close>

theorem connected_without_greeting_counterexample:
  "map contentM
     (Snapshot (handleWSMessage (at ''1700000000007'' ''0.25'') (control ''connected'' None)
                  (handleConnect (at ''1700000000000'' ''0.25'') initial)))
   = [''Connecting...'']"
  by (simp add: handleWSMessage_def control_def truthy_def handleConnect_def at_def
        initial_def new_object_def setMessages_def Snapshot_def map_values_def
        normalise_def Let_def statusMessageId_def)

section \<open>The speech-started event\<close>

text \<open>
  C6. Every control message with action \<^verbatim>\<open>speech_started\<close> empties the queue of the
  player (when there is a player) and creates a new object with the role \<^verbatim>\<open>user\<close> and
  the placeholder content \<^verbatim>\<open>"..."\<close>, which becomes the current user message, is stored
  under its identifier and is the one message with that identifier in the snapshot; when
  the identifier is new, the message is appended to the snapshot. All of it happens in
  the one step of the handler, before the next event is looked at.
\<close>

theorem speech_started_creates_placeholder:
  assumes "invar s" "typeW message = ''control''" "actionW message = Some ''speech_started''"
  shows "audioPlayerRef (handleWSMessage env message s)
           = map_option (\<lambda>p. []) (audioPlayerRef s)
       \<and> currentUserMessage (handleWSMessage env message s) = Some (nxt s)
       \<and> map_get (messageMap (handleWSMessage env message s)) (contrivedId env) = Some (nxt s)
       \<and> heap (handleWSMessage env message s) (nxt s)
           = \<lparr>idM = ''userMessage'' @ math_random env, contentM = ''...'',
              roleM = Some ''user''\<rparr>
       \<and> filter (\<lambda>m. idM m = contrivedId env) (chatState (handleWSMessage env message s))
           = [\<lparr>idM = ''userMessage'' @ math_random env, contentM = ''...'',
               roleM = Some ''user''\<rparr>]
       \<and> (contrivedId env \<notin> set (map_keys (messageMap s)) \<longrightarrow>
            chatState (handleWSMessage env message s)
              = Snapshot s @ [\<lparr>idM = ''userMessage'' @ math_random env, contentM = ''...'',
                                roleM = Some ''user''\<rparr>])"
proof -
  let ?s' = "handleWSMessage env message s"
  let ?U = "\<lparr>idM = ''userMessage'' @ math_random env, contentM = ''...'',
             roleM = Some ''user''\<rparr>"
  have U: "userMessage env = ?U"
    by (simp add: userMessage_def contrivedId_def)
  have nU: "normalise (userMessage env) = userMessage env"
    by (simp add: normalise_def userMessage_def)
  have h: "?s' = speech_started_case env s"
    using assms by (simp add: handleWSMessage_def)
  have inv': "invar ?s'"
    using assms(1) by (rule invar_handleWSMessage)
  have player: "audioPlayerRef ?s' = map_option (\<lambda>p. []) (audioPlayerRef s)"
    by (cases "audioPlayerRef s") (simp_all add: h speech_started_case_eq Let_def clear_def)
  have cur: "currentUserMessage ?s' = Some (nxt s)"
    by (simp add: h speech_started_case_eq Let_def)
  have get: "map_get (messageMap ?s') (contrivedId env) = Some (nxt s)"
    by (simp add: h speech_started_case_eq Let_def map_get_map_set)
  have heap': "heap ?s' (nxt s) = userMessage env"
    by (simp add: h speech_started_case_eq Let_def)
  have cs: "chatState ?s' = Snapshot ?s'"
    by (simp add: h speech_started_case_def Let_def split_def)
  have one: "filter (\<lambda>m. idM m = contrivedId env) (chatState ?s') = [userMessage env]"
    using Snapshot_at_key [OF inv' get] heap' cs nU by simp
  have app: "chatState ?s' = Snapshot s @ [userMessage env]"
    if fresh: "contrivedId env \<notin> set (map_keys (messageMap s))"
  proof -
    have m: "map_set (contrivedId env) (nxt s) (messageMap s)
             = messageMap s @ [(contrivedId env, nxt s)]"
      using fresh by (simp add: map_set_fresh map_keys_def)
    have "chatState ?s'
          = map normalise (map ((heap s)(nxt s := userMessage env)) (map snd (messageMap s)))
            @ [userMessage env]"
      by (simp add: h speech_started_case_eq Let_def m nU comp_def)
    then show ?thesis
      by (simp only: stored_append_fresh [OF assms(1)] Snapshot_stored)
  qed
  from player cur get heap' one app show ?thesis
    unfolding U by simp
qed

theorem speech_started_creates_placeholder_witness:
  "invar (snd (receiveLoop (\<lambda>d. None) True
                [(at ''1700000000001'' ''0.5'', Binary [1, 2]),
                 (at ''1700000000002'' ''0.5'', Binary [3])] initial))
   \<and> audioPlayerRef (snd (receiveLoop (\<lambda>d. None) True
                [(at ''1700000000001'' ''0.5'', Binary [1, 2]),
                 (at ''1700000000002'' ''0.5'', Binary [3])] initial))
      = Some [[1, 2], [3]]
   \<and> audioPlayerRef (handleWSMessage (at ''1700000000003'' ''0.25'')
          (control ''speech_started'' None)
          (snd (receiveLoop (\<lambda>d. None) True
                [(at ''1700000000001'' ''0.5'', Binary [1, 2]),
                 (at ''1700000000002'' ''0.5'', Binary [3])] initial)))
      = Some []
   \<and> chatState (handleWSMessage (at ''1700000000003'' ''0.25'')
          (control ''speech_started'' None)
          (snd (receiveLoop (\<lambda>d. None) True
                [(at ''1700000000001'' ''0.5'', Binary [1, 2]),
                 (at ''1700000000002'' ''0.5'', Binary [3])] initial)))
      = [\<lparr>idM = ''userMessage0.25'', contentM = ''...'', roleM = Some ''user''\<rparr>]"
proof -
  let ?c = "snd (receiveLoop (\<lambda>d. None) True
                [(at ''1700000000001'' ''0.5'', Binary [1, 2]),
                 (at ''1700000000002'' ''0.5'', Binary [3])] initial)"
  let ?m = "control ''speech_started'' None"
  have c: "?c = initial\<lparr>audioPlayerRef := Some [[1, 2], [3]]\<rparr>"
    by (simp add: receiveLoop_def initAudioPlayer_def receive_frame_def play_def initial_def)
  have inv: "invar ?c"
    unfolding c by (simp add: invar_def initial_def)
  have t: "typeW ?m = ''control''" and a: "actionW ?m = Some ''speech_started''"
    by (simp_all add: control_def)
  have fresh: "contrivedId (at ''1700000000003'' ''0.25'') \<notin> set (map_keys (messageMap ?c))"
    unfolding c by (simp add: initial_def map_keys_def)
  have snap: "Snapshot ?c = []"
    unfolding c by (simp add: initial_def Snapshot_def map_values_def)
  have p: "audioPlayerRef ?c = Some [[1, 2], [3]]"
    unfolding c by simp
  show ?thesis
    using inv p fresh snap
      speech_started_creates_placeholder [OF inv t a, of "at ''1700000000003'' ''0.25''"]
    by (simp add: at_def)
qed

section \<open>The transcription event\<close>

text \<open>
  C3, as the code has it. A transcription event is acted upon when its identifier is
  present and not empty and a current user message exists (the object created by the
  latest speech-started event). Then the content of that object is replaced, not
  appended to, by the text of the event (the empty string when the text is missing); no
  other object, the map and the current user message do not change, and when the object
  is stored under the key \<open>k\<close> the snapshot changes at the message \<open>k\<close> only. The
  identifier of the event is not compared with anything. Otherwise the state is left as
  it was.
\<close>

theorem transcription_replaces_current:
  assumes "typeW message = ''transcription''"
  shows "(currentUserMessage s = Some cur \<and> truthy (idW message) \<longrightarrow>
            heap (handleWSMessage env message s)
              = (heap s)(cur := (heap s cur)\<lparr>contentM := or_empty (textW message)\<rparr>)
          \<and> messageMap (handleWSMessage env message s) = messageMap s
          \<and> currentUserMessage (handleWSMessage env message s) = Some cur
          \<and> (invar s \<and> map_get (messageMap s) k = Some cur \<longrightarrow>
               chatState (handleWSMessage env message s)
                 = map (\<lambda>m. if idM m = k then m\<lparr>contentM := or_empty (textW message)\<rparr> else m)
                       (Snapshot s)))
       \<and> (currentUserMessage s = None \<or> \<not> truthy (idW message) \<longrightarrow>
            handleWSMessage env message s = s)"
proof (intro conjI impI)
  assume "currentUserMessage s = None \<or> \<not> truthy (idW message)"
  then show "handleWSMessage env message s = s"
    using assms by (simp add: handleWSMessage_def transcription_case_ignored)
next
  assume c: "currentUserMessage s = Some cur \<and> truthy (idW message)"
  then have eq: "handleWSMessage env message s =
      (let h = (heap s)(cur := (heap s cur)\<lparr>contentM := or_empty (textW message)\<rparr>)
       in s\<lparr>heap := h, chatState := map (\<lambda>a. normalise (h a)) (map snd (messageMap s))\<rparr>)"
    using assms by (simp add: handleWSMessage_def transcription_case_eq)
  show "heap (handleWSMessage env message s)
          = (heap s)(cur := (heap s cur)\<lparr>contentM := or_empty (textW message)\<rparr>)"
    by (simp add: eq Let_def)
  show "messageMap (handleWSMessage env message s) = messageMap s"
    by (simp add: eq Let_def)
  show "currentUserMessage (handleWSMessage env message s) = Some cur"
    using c by (simp add: eq Let_def)
  assume "invar s \<and> map_get (messageMap s) k = Some cur"
  then show "chatState (handleWSMessage env message s)
     = map (\<lambda>m. if idM m = k then m\<lparr>contentM := or_empty (textW message)\<rparr> else m) (Snapshot s)"
    using Snapshot_update_content [of s k cur "or_empty (textW message)"]
    by (simp add: eq Let_def del: fun_upd_apply)
qed

theorem transcription_replaces_current_witness:
  "currentUserMessage (handleWSMessage (at ''1700000000003'' ''0.25'')
                         (control ''speech_started'' None) initial) = Some 0
   \<and> truthy (idW (transcription ''item_7'' ''what is the weather''))
   \<and> invar (handleWSMessage (at ''1700000000003'' ''0.25'')
               (control ''speech_started'' None) initial)
   \<and> map_get (messageMap (handleWSMessage (at ''1700000000003'' ''0.25'')
                              (control ''speech_started'' None) initial))
        ''userMessage0.25'' = Some 0
   \<and> chatState (handleWSMessage (at ''1700000000009'' ''0.75'')
                  (transcription ''item_7'' ''what is the weather'')
                  (handleWSMessage (at ''1700000000003'' ''0.25'')
                     (control ''speech_started'' None) initial))
      = [\<lparr>idM = ''userMessage0.25'', contentM = ''what is the weather'',
          roleM = Some ''user''\<rparr>]
   \<and> handleWSMessage (at ''1700000000009'' ''0.75'')
        (transcription ''item_7'' ''what is the weather'') initial = initial"
proof -
  let ?c = "handleWSMessage (at ''1700000000003'' ''0.25'') (control ''speech_started'' None)
              initial"
  let ?m = "transcription ''item_7'' ''what is the weather''"
  let ?e = "at ''1700000000009'' ''0.75''"
  have inv: "invar ?c"
    using invar_initial by (rule invar_handleWSMessage)
  have c: "?c = speech_started_case (at ''1700000000003'' ''0.25'') initial"
    by (simp add: handleWSMessage_def control_def)
  have cur: "currentUserMessage ?c = Some 0"
    unfolding c by (simp add: speech_started_case_eq Let_def initial_def)
  have get: "map_get (messageMap ?c) ''userMessage0.25'' = Some 0"
    unfolding c by (simp add: speech_started_case_eq Let_def initial_def contrivedId_def at_def)
  have snap: "Snapshot ?c = [\<lparr>idM = ''userMessage0.25'', contentM = ''...'',
                               roleM = Some ''user''\<rparr>]"
    unfolding c
    by (simp add: speech_started_case_eq Let_def initial_def contrivedId_def at_def
          Snapshot_def map_values_def userMessage_def normalise_def)
  have t: "typeW ?m = ''transcription''" and i: "truthy (idW ?m)"
    by (simp_all add: transcription_def truthy_def)
  have none: "currentUserMessage initial = None"
    by (simp add: initial_def)
  show ?thesis
    using cur i inv get snap none
      transcription_replaces_current
        [OF t, where s = ?c and cur = 0 and k = "''userMessage0.25''" and env = ?e]
      transcription_replaces_current
        [OF t, where s = initial and cur = 0 and k = "''userMessage0.25''" and env = ?e]
    by (simp add: transcription_def or_empty_def)
qed

text \<open>
  C3 as the specification states it (the message correlated by the identifier is
  replaced exactly once and never mutated afterwards) fails: a second transcription
  event, with another identifier, replaces the content of the same message again.
\<close>

theorem transcription_twice_counterexample:
  "Snapshot (run [(at ''1700000000003'' ''0.25'', control ''speech_started'' None),
                  (at ''1700000000009'' ''0.75'', transcription ''item_7'' ''what is the weather''),
                  (at ''1700000000015'' ''0.75'', transcription ''item_9'' ''something else'')]
               initial)
   = [\<lparr>idM = ''userMessage0.25'', contentM = ''something else'', roleM = Some ''user''\<rparr>]"
  by (simp add: handleWSMessage_def control_def transcription_def at_def initial_def
        speech_started_case_def transcription_case_def new_object_def setMessages_def
        Snapshot_def map_values_def normalise_def Let_def truthy_def or_empty_def
        userMessage_def contrivedId_def)

section \<open>Delta fragments are concatenated in arrival order\<close>

text \<open>
  C1, as the code has it. Take any sequence of events handled from a well-formed state
  in which no message has the identifier \<open>i\<close>, where \<open>i\<close> is not empty and no control
  event of the sequence generates \<open>i\<close> as its own identifier. If the sequence contains
  at least one \<^verbatim>\<open>text_delta\<close> event with identifier \<open>i\<close>, then what the client shows
  has exactly one message with that identifier: an assistant message whose content is
  the concatenation, in arrival order, of the fragments of all those events (a missing
  fragment counts as the empty string), whatever other events are interleaved.
\<close>

theorem deltas_concatenate_in_arrival_order:
  assumes "invar s" "i \<noteq> []" "i \<notin> set (map_keys (messageMap s))"
    and "\<forall>ev \<in> set evs. \<not> generates i ev"
    and "deltas_for i evs \<noteq> []"
  shows "filter (\<lambda>m. idM m = i) (chatState (run evs s))
         = [\<lparr>idM = i, contentM = concat (deltas_for i evs), roleM = Some ''assistant''\<rparr>]"
proof -
  have ab: "map_get (messageMap s) i = None"
    using assms(3) by (simp add: map_get_None_iff map_keys_def)
  from absent_run [OF assms(1) assms(2) ab assms(4)] assms(5)
  obtain a where tr: "tracked (run evs s) i a (concat (deltas_for i evs))"
    by auto
  have inv: "invar (run evs s)"
    using assms(1) by (rule invar_run)
  have get: "map_get (messageMap (run evs s)) i = Some a"
    and heap: "heap (run evs s) a
               = \<lparr>idM = i, contentM = concat (deltas_for i evs), roleM = Some ''assistant''\<rparr>"
    using tr by (simp_all add: tracked_def)
  have snap: "filter (\<lambda>m. idM m = i) (Snapshot (run evs s))
         = [\<lparr>idM = i, contentM = concat (deltas_for i evs), roleM = Some ''assistant''\<rparr>]"
    using Snapshot_at_key [OF inv get] heap by (simp add: normalise_def)
  have "run evs s \<noteq> s"
    using get ab by auto
  with run_unchanged_or_shown [of evs s] have "chatState (run evs s) = Snapshot (run evs s)"
    by simp
  with snap show ?thesis by simp
qed

theorem deltas_concatenate_in_arrival_order_witness:
  "invar (handleConnect (at ''1700000000000'' ''0.25'') initial)
   \<and> ''item_1'' \<notin> set (map_keys (messageMap (handleConnect (at ''1700000000000'' ''0.25'') initial)))
   \<and> deltas_for ''item_1''
        [(at ''1700000000001'' ''0.5'', text_delta ''item_1'' ''Hel''),
         (at ''1700000000002'' ''0.5'', control ''speech_started'' None),
         (at ''1700000000003'' ''0.5'', text_delta ''item_2'' ''other''),
         (at ''1700000000004'' ''0.5'', text_delta ''item_1'' ''lo''),
         (at ''1700000000005'' ''0.5'', transcription ''item_3'' ''what is the weather''),
         (at ''1700000000006'' ''0.5'', control ''connected'' (Some ''Hello from the server'')),
         (at ''1700000000007'' ''0.5'', text_delta ''item_1'' '' there'')]
      = [''Hel'', ''lo'', '' there'']
   \<and> filter (\<lambda>m. idM m = ''item_1'')
        (chatState (run
          [(at ''1700000000001'' ''0.5'', text_delta ''item_1'' ''Hel''),
           (at ''1700000000002'' ''0.5'', control ''speech_started'' None),
           (at ''1700000000003'' ''0.5'', text_delta ''item_2'' ''other''),
           (at ''1700000000004'' ''0.5'', text_delta ''item_1'' ''lo''),
           (at ''1700000000005'' ''0.5'', transcription ''item_3'' ''what is the weather''),
           (at ''1700000000006'' ''0.5'', control ''connected'' (Some ''Hello from the server'')),
           (at ''1700000000007'' ''0.5'', text_delta ''item_1'' '' there'')]
          (handleConnect (at ''1700000000000'' ''0.25'') initial)))
      = [\<lparr>idM = ''item_1'', contentM = ''Hello there'', roleM = Some ''assistant''\<rparr>]"
proof -
  let ?c = "handleConnect (at ''1700000000000'' ''0.25'') initial"
  let ?evs = "[(at ''1700000000001'' ''0.5'', text_delta ''item_1'' ''Hel''),
         (at ''1700000000002'' ''0.5'', control ''speech_started'' None),
         (at ''1700000000003'' ''0.5'', text_delta ''item_2'' ''other''),
         (at ''1700000000004'' ''0.5'', text_delta ''item_1'' ''lo''),
         (at ''1700000000005'' ''0.5'', transcription ''item_3'' ''what is the weather''),
         (at ''1700000000006'' ''0.5'', control ''connected'' (Some ''Hello from the server'')),
         (at ''1700000000007'' ''0.5'', text_delta ''item_1'' '' there'')]"
  have inv: "invar ?c"
    by (simp add: handleConnect_def at_def initial_def new_object_def setMessages_def
          invar_def Let_def statusMessageId_def)
  have i: "''item_1'' \<noteq> []" by simp
  have fresh: "''item_1'' \<notin> set (map_keys (messageMap ?c))"
    by (simp add: handleConnect_def at_def initial_def new_object_def setMessages_def
          map_keys_def Let_def statusMessageId_def)
  have gen: "\<forall>ev \<in> set ?evs. \<not> generates ''item_1'' ev"
    by (simp add: generates_def at_def text_delta_def control_def transcription_def
          statusMessageId_def contrivedId_def)
  have d: "deltas_for ''item_1'' ?evs = [''Hel'', ''lo'', '' there'']"
    by (simp add: deltas_for_def text_delta_def control_def transcription_def or_empty_def)
  have ne: "deltas_for ''item_1'' ?evs \<noteq> []"
    unfolding d by simp
  show ?thesis
    using inv fresh d deltas_concatenate_in_arrival_order [OF inv i fresh gen ne]
    by simp
qed

text \<open>
  C1 as the specification states it (for every sequence of delta events sharing an
  identifier) fails for the empty identifier, which \<^verbatim>\<open>if (message.id)\<close> rejects: two
  fragments sent with the identifier \<^verbatim>\<open>""\<close> leave the snapshot empty.
\<close>

theorem deltas_with_empty_id_counterexample:
  "Snapshot (run [(at ''1700000000001'' ''0.5'', text_delta [] ''Hel''),
                  (at ''1700000000002'' ''0.5'', text_delta [] ''lo'')] initial) = []"
  by (simp add: handleWSMessage_def text_delta_def text_delta_case_def initial_def
        Snapshot_def map_values_def)

section \<open>The snapshot lists the messages in the order of first observation\<close>

text \<open>
  C4, as the code has it. After any sequence of events handled from a well-formed
  state, the snapshot has one entry for each entry of the map, in the order of the map,
  and no two of its messages share an identifier. Provided no event brings in again the
  identifier of a status message stored at the start (the only messages the connected
  event can remove), the identifiers stand in the order in which they were first
  observed (the identifiers present at the start first, then each new identifier where
  the event that brought it arrived): the snapshot lists exactly the identifiers of that
  order that are still present, and all of them when no status message was stored at
  the start, since then nothing is ever removed. Later deltas and transcriptions never
  move a message.
\<close>

theorem snapshot_in_order_of_first_observation:
  assumes "invar s"
    and "\<forall>ev \<in> set evs. \<forall>k. observed_id ev = Some k \<longrightarrow> k \<notin> status_ids s"
  shows "map idM (Snapshot (run evs s)) = map_keys (messageMap (run evs s))
       \<and> distinct (map idM (Snapshot (run evs s)))
       \<and> map idM (Snapshot (run evs s))
           = filter (\<lambda>k. k \<in> set (map idM (Snapshot (run evs s))))
                    (first_observed (map idM (Snapshot s)) evs)
       \<and> (status_ids s = {} \<longrightarrow>
            map idM (Snapshot (run evs s)) = first_observed (map idM (Snapshot s)) evs)"
proof -
  let ?K = "map fst (messageMap s)"
  let ?K' = "map fst (messageMap (run evs s))"
  have inv': "invar (run evs s)"
    using assms(1) by (rule invar_run)
  have ids: "map idM (Snapshot s) = ?K"
    using assms(1) by (rule Snapshot_ids)
  have ids': "map idM (Snapshot (run evs s)) = ?K'"
    using inv' by (rule Snapshot_ids)
  have dist: "distinct ?K'"
    using inv' by (simp add: invar_def)
  have start: "?K = filter (\<lambda>x. x \<in> set ?K) ?K" by simp
  have none: "set ?K - set ?K \<subseteq> status_ids s" by simp
  note run = order_run [OF assms(1) subset_refl assms(2) start none]
  have ord: "?K' = filter (\<lambda>x. x \<in> set ?K') (first_observed ?K evs)"
    using run by (rule conjunct1)
  have all: "?K' = first_observed ?K evs" if "status_ids s = {}"
  proof -
    from conjunct2 [OF run] that have "set (first_observed ?K evs) \<subseteq> set ?K'" by auto
    then have f: "filter (\<lambda>x. x \<in> set ?K') (first_observed ?K evs) = first_observed ?K evs"
      by (intro filter_True) auto
    from ord f show ?thesis by (rule trans)
  qed
  show ?thesis
    unfolding ids ids' map_keys_def
  proof (intro conjI impI)
    show "?K' = ?K'" ..
    show "distinct ?K'" by (rule dist)
    show "?K' = filter (\<lambda>k. k \<in> set ?K') (first_observed ?K evs)" by (rule ord)
    assume "status_ids s = {}"
    then show "?K' = first_observed ?K evs" by (rule all)
  qed
qed

theorem snapshot_in_order_of_first_observation_witness:
  "invar initial \<and> status_ids initial = {}
   \<and> map idM (Snapshot (run
          [(at ''1700000000001'' ''0.5'', text_delta ''item_1'' ''Hel''),
           (at ''1700000000002'' ''0.5'', control ''speech_started'' None),
           (at ''1700000000003'' ''0.5'', text_delta ''item_2'' ''x''),
           (at ''1700000000004'' ''0.5'', text_delta ''item_1'' ''lo''),
           (at ''1700000000005'' ''0.5'', transcription ''item_9'' ''what is the weather''),
           (at ''1700000000006'' ''0.5'', control ''connected'' (Some ''Hello from the server'')),
           (at ''1700000000007'' ''0.5'', text_delta ''item_2'' ''y'')]
          initial))
      = [''item_1'', ''userMessage0.5'', ''item_2'', ''status-1700000000006'']
   \<and> invar (handleConnect (at ''1700000000000'' ''0.25'') initial)
   \<and> status_ids (handleConnect (at ''1700000000000'' ''0.25'') initial) = {''status-1700000000000''}
   \<and> distinct (map idM (Snapshot (run
          [(at ''1700000000001'' ''0.5'', text_delta ''item_1'' ''Hel''),
           (at ''1700000000002'' ''0.5'', control ''speech_started'' None),
           (at ''1700000000003'' ''0.5'', text_delta ''item_2'' ''x''),
           (at ''1700000000004'' ''0.5'', text_delta ''item_1'' ''lo''),
           (at ''1700000000005'' ''0.5'', transcription ''item_9'' ''what is the weather''),
           (at ''1700000000006'' ''0.5'', control ''connected'' (Some ''Hello from the server'')),
           (at ''1700000000007'' ''0.5'', text_delta ''item_2'' ''y'')]
          (handleConnect (at ''1700000000000'' ''0.25'') initial))))"
proof -
  let ?evs = "[(at ''1700000000001'' ''0.5'', text_delta ''item_1'' ''Hel''),
           (at ''1700000000002'' ''0.5'', control ''speech_started'' None),
           (at ''1700000000003'' ''0.5'', text_delta ''item_2'' ''x''),
           (at ''1700000000004'' ''0.5'', text_delta ''item_1'' ''lo''),
           (at ''1700000000005'' ''0.5'', transcription ''item_9'' ''what is the weather''),
           (at ''1700000000006'' ''0.5'', control ''connected'' (Some ''Hello from the server'')),
           (at ''1700000000007'' ''0.5'', text_delta ''item_2'' ''y'')]"
  let ?c = "handleConnect (at ''1700000000000'' ''0.25'') initial"
  have obs: "map observed_id ?evs
             = [Some ''item_1'', Some ''userMessage0.5'', Some ''item_2'', Some ''item_1'',
                None, Some ''status-1700000000006'', Some ''item_2'']"
    by (simp add: observed_id_def at_def text_delta_def control_def transcription_def
          truthy_def statusMessageId_def contrivedId_def)
  have st0: "status_ids initial = {}"
    by (simp add: status_ids_def initial_def)
  have snap0: "map idM (Snapshot initial) = []"
    by (simp add: Snapshot_def initial_def map_values_def)
  have h0: "\<forall>ev \<in> set ?evs. \<forall>k. observed_id ev = Some k \<longrightarrow> k \<notin> status_ids initial"
    unfolding st0 by simp
  have fo: "first_observed [] ?evs
            = [''item_1'', ''userMessage0.5'', ''item_2'', ''status-1700000000006'']"
    using obs by (simp add: observe_def)
  have inv: "invar ?c"
    by (simp add: handleConnect_def at_def initial_def new_object_def setMessages_def
          invar_def Let_def statusMessageId_def)
  have st: "status_ids ?c = {''status-1700000000000''}"
    by (simp add: handleConnect_def at_def initial_def new_object_def setMessages_def
          status_ids_def Let_def statusMessageId_def)
  have h: "\<forall>ev \<in> set ?evs. \<forall>k. observed_id ev = Some k \<longrightarrow> k \<notin> status_ids ?c"
    unfolding st using obs by simp
  note A = snapshot_in_order_of_first_observation [OF invar_initial h0]
  note B = snapshot_in_order_of_first_observation [OF inv h]
  have a: "map idM (Snapshot (run ?evs initial))
           = [''item_1'', ''userMessage0.5'', ''item_2'', ''status-1700000000006'']"
    using mp [OF conjunct2 [OF conjunct2 [OF conjunct2 [OF A]]] st0]
    unfolding snap0 fo .
  have b: "distinct (map idM (Snapshot (run ?evs ?c)))"
    by (rule conjunct1 [OF conjunct2 [OF B]])
  from invar_initial st0 a inv st b show ?thesis
    by (intro conjI)
qed

text \<open>
  C4 as the specification states it (the order of first observation, with no proviso)
  fails when an identifier that the connected event removed comes back: the map puts a
  key that was deleted and is set again at the end. After \<^verbatim>\<open>handleConnect\<close>, a delta
  for \<^verbatim>\<open>item_1\<close>, a connected event with a greeting and a delta that carries the
  identifier of the removed "Connecting..." message, that identifier is listed last,
  although it was observed first.
\<close>

theorem reinserted_status_id_counterexample:
  "map idM (Snapshot (run
      [(at ''1700000000003'' ''0.5'', text_delta ''item_1'' ''Hi''),
       (at ''1700000000007'' ''0.5'', control ''connected'' (Some ''Hello from the server'')),
       (at ''1700000000009'' ''0.5'', text_delta ''status-1700000000000'' ''again'')]
      (handleConnect (at ''1700000000000'' ''0.25'') initial)))
     = [''item_1'', ''status-1700000000007'', ''status-1700000000000'']
   \<and> first_observed
       (map idM (Snapshot (handleConnect (at ''1700000000000'' ''0.25'') initial)))
       [(at ''1700000000003'' ''0.5'', text_delta ''item_1'' ''Hi''),
        (at ''1700000000007'' ''0.5'', control ''connected'' (Some ''Hello from the server'')),
        (at ''1700000000009'' ''0.5'', text_delta ''status-1700000000000'' ''again'')]
     = [''status-1700000000000'', ''item_1'', ''status-1700000000007'']"
proof -
  let ?c = "handleConnect (at ''1700000000000'' ''0.25'') initial"
  have c: "?c = \<lparr>heap = (heap initial)(0 := \<lparr>idM = ''status-1700000000000'',
                        contentM = ''Connecting...'', roleM = Some ''status''\<rparr>),
                 nxt = 1, messageMap = [(''status-1700000000000'', 0)],
                 currentUserMessage = None,
                 chatState = [\<lparr>idM = ''status-1700000000000'', contentM = ''Connecting...'',
                                roleM = Some ''status''\<rparr>],
                 audioPlayerRef = None\<rparr>"
    by (simp add: handleConnect_def at_def initial_def new_object_def setMessages_def
          Snapshot_def map_values_def normalise_def Let_def statusMessageId_def)
  have ids: "map idM (Snapshot (run
      [(at ''1700000000003'' ''0.5'', text_delta ''item_1'' ''Hi''),
       (at ''1700000000007'' ''0.5'', control ''connected'' (Some ''Hello from the server'')),
       (at ''1700000000009'' ''0.5'', text_delta ''status-1700000000000'' ''again'')] ?c))
     = [''item_1'', ''status-1700000000007'', ''status-1700000000000'']"
    unfolding c
    by (simp add: handleWSMessage_def text_delta_def control_def at_def truthy_def
          text_delta_case_def connected_case_def messagesToRemove_def new_object_def
          newMessage_def statusMessage_def statusMessageId_def setMessages_def Snapshot_def
          map_values_def normalise_def or_empty_def Let_def initial_def)
  have fo: "first_observed (map idM (Snapshot ?c))
       [(at ''1700000000003'' ''0.5'', text_delta ''item_1'' ''Hi''),
        (at ''1700000000007'' ''0.5'', control ''connected'' (Some ''Hello from the server'')),
        (at ''1700000000009'' ''0.5'', text_delta ''status-1700000000000'' ''again'')]
     = [''status-1700000000000'', ''item_1'', ''status-1700000000007'']"
    unfolding c
    by (simp add: Snapshot_def map_values_def normalise_def observe_def observed_id_def
          text_delta_def control_def at_def truthy_def statusMessageId_def initial_def)
  from ids fo show ?thesis by (rule conjI)
qed

section \<open>A malformed frame does not stop the receive loop\<close>

text \<open>
  C5. Let a text frame carry a payload on which \<^verbatim>\<open>JSON.parse\<close> throws (such as
  \<^verbatim>\<open>{not json\<close>), or a message whose type is none of those the handler knows. Wherever
  the frame stands among the frames of the socket, the receive loop logs it (with
  \<^verbatim>\<open>console.error\<close> when parsing failed) and goes on: the frames before and after it
  are processed as if the frame had not been sent, so the final state is the state of
  the loop run without it, and the log of the frames after it follows.
\<close>

theorem malformed_frame_is_dropped:
  assumes "parse d = None
           \<or> (\<exists>m. parse d = Some m \<and> typeW m \<notin> {''transcription'', ''text_delta'', ''control''})"
  shows "snd (receiveLoop parse w (pre @ (env, Text d) # post) s)
           = snd (receiveLoop parse w (pre @ post) s)
       \<and> fst (receiveLoop parse True (pre @ (env, Text d) # post) s)
           = fst (receiveLoop parse True pre s)
             @ (case parse d of None \<Rightarrow> ErrorParsing d | Some m \<Rightarrow> Received m)
             # fst (receive_frames parse post (snd (receiveLoop parse True pre s)))"
proof -
  let ?c = "initAudioPlayer s"
  let ?p = "snd (receive_frames parse pre ?c)"
  have one: "receive_frames parse ((env, Text d) # post) ?p
             = ((case parse d of None \<Rightarrow> ErrorParsing d | Some m \<Rightarrow> Received m)
                  # fst (receive_frames parse post ?p),
                snd (receive_frames parse post ?p))"
    by (simp add: receive_frame_dropped [of parse d, OF assms] split_def Let_def)
  have st: "snd (receive_frames parse (pre @ (env, Text d) # post) ?c)
            = snd (receive_frames parse (pre @ post) ?c)"
    by (simp add: receive_frames_append one del: receive_frames.simps)
  have lg: "fst (receive_frames parse (pre @ (env, Text d) # post) ?c)
            = fst (receive_frames parse pre ?c)
              @ (case parse d of None \<Rightarrow> ErrorParsing d | Some m \<Rightarrow> Received m)
              # fst (receive_frames parse post ?p)"
    by (simp add: receive_frames_append one del: receive_frames.simps)
  from st lg show ?thesis
    by (simp add: receiveLoop_def Let_def)
qed

theorem malformed_frame_is_dropped_witness:
  "(\<lambda>d. if d = ''{not json'' then None else Some (text_delta ''item_1'' d)) ''{not json'' = None
   \<and> chatState (snd (receiveLoop
         (\<lambda>d. if d = ''{not json'' then None else Some (text_delta ''item_1'' d)) True
         ([(at ''1700000000001'' ''0.5'', Text ''Hel'')]
          @ (at ''1700000000002'' ''0.5'', Text ''{not json'')
          # [(at ''1700000000003'' ''0.5'', Binary [1, 2]),
             (at ''1700000000004'' ''0.5'', Text ''lo'')])
         initial))
      = [\<lparr>idM = ''item_1'', contentM = ''Hello'', roleM = Some ''assistant''\<rparr>]
   \<and> audioPlayerRef (snd (receiveLoop
         (\<lambda>d. if d = ''{not json'' then None else Some (text_delta ''item_1'' d)) True
         ([(at ''1700000000001'' ''0.5'', Text ''Hel'')]
          @ (at ''1700000000002'' ''0.5'', Text ''{not json'')
          # [(at ''1700000000003'' ''0.5'', Binary [1, 2]),
             (at ''1700000000004'' ''0.5'', Text ''lo'')])
         initial))
      = Some [[1, 2]]"
proof -
  let ?parse = "\<lambda>d. if d = ''{not json'' then None else Some (text_delta ''item_1'' d)"
  let ?pre = "[(at ''1700000000001'' ''0.5'', Text ''Hel'')]"
  let ?post = "[(at ''1700000000003'' ''0.5'', Binary [1, 2]),
               (at ''1700000000004'' ''0.5'', Text ''lo'')]"
  have bad: "?parse ''{not json'' = None
             \<or> (\<exists>m. ?parse ''{not json'' = Some m
                    \<and> typeW m \<notin> {''transcription'', ''text_delta'', ''control''})"
    by simp
  have without: "snd (receiveLoop ?parse True (?pre @ ?post) initial)
      = \<lparr>heap = (heap initial)(0 := \<lparr>idM = ''item_1'', contentM = ''Hello'',
                                       roleM = Some ''assistant''\<rparr>),
         nxt = 1, messageMap = [(''item_1'', 0)], currentUserMessage = None,
         chatState = [\<lparr>idM = ''item_1'', contentM = ''Hello'', roleM = Some ''assistant''\<rparr>],
         audioPlayerRef = Some [[1, 2]]\<rparr>"
    by (simp add: receiveLoop_def initAudioPlayer_def receive_frame_def play_def initial_def
          handleWSMessage_def text_delta_def text_delta_case_def new_object_def newMessage_def
          setMessages_def Snapshot_def map_values_def normalise_def or_empty_def Let_def)
  show ?thesis
    using malformed_frame_is_dropped
            [of ?parse "''{not json''", OF bad, of True ?pre "at ''1700000000002'' ''0.5''"
               ?post initial]
    unfolding without by simp
qed

section \<open>Clearing the playback of the speaker output\<close>

lemma ClearPlayback_keeps_the_queue:
  "waveProvider (ClearPlayback so) = [] \<and> audioQueue (ClearPlayback so) = audioQueue so
   \<and> device (ClearPlayback so) = device so"
  by (simp add: ClearPlayback_def)

text \<open>
  C2, on the code. \<^verbatim>\<open>ClearPlayback\<close> empties the wave provider only; an array that is
  still in \<^verbatim>\<open>_audioQueue\<close> survives it. A chunk enqueued while the processing task
  sleeps, followed by \<^verbatim>\<open>ClearPlayback\<close>, is moved to the provider by the next
  iteration of the task and reaches the output device: the four bytes enqueued before
  the call are played after it.
\<close>

theorem chunk_queued_before_ClearPlayback_is_played:
  "device (speaker_run [Enqueue [1, 2, 3, 4], Clear, Process, DeviceRead 4] SpeakerOutput_new)
   = [1, 2, 3, 4]"
  by (simp add: speaker_run_def SpeakerOutput_new_def EnqueueForPlayback_def ClearPlayback_def
        ProcessAudioQueue_def device_read_def BufferLength_def)

end
